theory Spec2Isabelle
  imports Main
begin

section \<open>JavaScript numbers and strings used by the checker\<close>

text \<open>
  The comparator of the checker computes with indices, lengths and the value
  \<open>Infinity\<close>.  Only these values of the JavaScript number type occur, so a
  number is an integer, one of the two infinities, or \<open>NaN\<close> (the value of
  \<open>Infinity - Infinity\<close>).
\<close>

datatype js_number = NaN | NegInfinity | Finite int | Infinity

fun js_sub :: "js_number \<Rightarrow> js_number \<Rightarrow> js_number" where
  "js_sub (Finite a) (Finite b) = Finite (a - b)"
| "js_sub (Finite a) Infinity = NegInfinity"
| "js_sub (Finite a) NegInfinity = Infinity"
| "js_sub Infinity (Finite b) = Infinity"
| "js_sub Infinity NegInfinity = Infinity"
| "js_sub NegInfinity (Finite b) = NegInfinity"
| "js_sub NegInfinity Infinity = NegInfinity"
| "js_sub _ _ = NaN"


fun js_negative :: "js_number \<Rightarrow> bool" where
  "js_negative NegInfinity = True"
| "js_negative (Finite a) = (a < 0)"
| "js_negative _ = False"

fun js_positive :: "js_number \<Rightarrow> bool" where
  "js_positive Infinity = True"
| "js_positive (Finite a) = (0 < a)"
| "js_positive _ = False"

text \<open>\<open>Math.min\<close> of two numbers.\<close>

fun math_min :: "js_number \<Rightarrow> js_number \<Rightarrow> js_number" where
  "math_min NaN _ = NaN"
| "math_min _ NaN = NaN"
| "math_min NegInfinity _ = NegInfinity"
| "math_min _ NegInfinity = NegInfinity"
| "math_min Infinity b = b"
| "math_min a Infinity = a"
| "math_min (Finite a) (Finite b) = Finite (min a b)"

text \<open>\<open>s.indexOf(c)\<close> for a one-character needle: the first index, or \<open>-1\<close>.\<close>

primrec indexOf :: "string \<Rightarrow> char \<Rightarrow> int" where
  "indexOf [] c = - 1"
| "indexOf (x # xs) c =
     (if x = c then 0 else (let i = indexOf xs c in if i < 0 then - 1 else i + 1))"

text \<open>\<open>s.endsWith(c)\<close> for a one-character suffix.\<close>

definition endsWith :: "string \<Rightarrow> char \<Rightarrow> bool" where
  "endsWith s c = (s \<noteq> [] \<and> last s = c)"

text \<open>\<open>(s.match(/\+/g) || []).length\<close>: the number of \<open>+\<close> in \<open>s\<close>.\<close>

definition plusCount :: "string \<Rightarrow> int" where
  "plusCount s = int (length (filter (\<lambda>c. c = CHR ''+'') s))"

text \<open>
  \<open>String.prototype.localeCompare\<close> is a function of the host, with the
  collation of the host's locale; the repository does not define it.  It is a
  parameter of the comparator and of everything built on it: \<open>localeCompare a b\<close>
  stands for \<open>a.localeCompare(b)\<close>.
\<close>

type_synonym collation = "string \<Rightarrow> string \<Rightarrow> int"

text \<open>
  \<open>Array.prototype.sort(cmp)\<close>: \<open>a\<close> is placed before \<open>b\<close> when \<open>cmp(a, b)\<close> is
  negative, and elements that compare as equal keep their order.  A stable
  insertion sort.
\<close>

fun sort_insert :: "('a \<Rightarrow> 'a \<Rightarrow> js_number) \<Rightarrow> 'a \<Rightarrow> 'a list \<Rightarrow> 'a list" where
  "sort_insert cmp x [] = [x]"
| "sort_insert cmp x (y # ys) =
     (if js_negative (cmp x y) then x # y # ys else y # sort_insert cmp x ys)"

definition array_sort :: "('a \<Rightarrow> 'a \<Rightarrow> js_number) \<Rightarrow> 'a list \<Rightarrow> 'a list" where
  "array_sort cmp xs = foldl (\<lambda>acc x. sort_insert cmp x acc) [] xs"

section \<open>The priority of path patterns\<close>

definition firstWildcard :: "string \<Rightarrow> js_number" where
  "firstWildcard path1 =
     math_min
       (if indexOf path1 (CHR ''+'') > - 1 then Finite (indexOf path1 (CHR ''+'')) else Infinity)
       (if indexOf path1 (CHR ''*'') > - 1 then Finite (indexOf path1 (CHR ''*'')) else Infinity)"

definition comparePathPriority :: "collation \<Rightarrow> string \<Rightarrow> string \<Rightarrow> js_number" where
  "comparePathPriority localeCompare path1 path2 =
     (let firstWildcard1 = firstWildcard path1;
          firstWildcard2 = firstWildcard path2
      in if firstWildcard1 \<noteq> firstWildcard2 then js_sub firstWildcard1 firstWildcard2
      else
        let endsWithStar1 = endsWith path1 (CHR ''*'');
            endsWithStar2 = endsWith path2 (CHR ''*'')
        in if endsWithStar1 \<noteq> endsWithStar2 then (if endsWithStar1 then Finite (- 1) else Finite 1)
        else
          let plusCount1 = plusCount path1;
              plusCount2 = plusCount path2
          in if plusCount1 \<noteq> plusCount2 then Finite (plusCount2 - plusCount1)
          else if length path1 \<noteq> length path2
            then Finite (int (length path1) - int (length path2))
          else Finite (localeCompare path2 path1))"

section \<open>The terms handed to the solver\<close>

text \<open>
  The checker builds its formulas through the constructors of the solver's
  low-level interface.  Each constructor used by the source is a constructor
  here: \<open>mk_re_range\<close>, \<open>mk_seq_to_re\<close>, \<open>mk_re_union\<close>, \<open>mk_re_concat\<close>,
  \<open>mk_re_star\<close> and \<open>mk_re_plus\<close> for regular expressions, \<open>mk_const\<close> and
  \<open>mk_string\<close> for strings, and the boolean constructors.
\<close>

datatype z3_re =
    Re_Range string string
  | Seq_To_Re string
  | Re_Union "z3_re list"
  | Re_Concat "z3_re list"
  | Re_Star z3_re
  | Re_Plus z3_re

datatype z3_seq = Mk_Const string | Mk_String string

text \<open>
  The regular expression of \<open>mk_seq_in_re\<close> is optional: for the empty pattern
  the source passes \<open>undefined\<close> (\<open>reParts[0]\<close> of an empty array).
\<close>

datatype z3_ast =
    Mk_False
  | Mk_Eq z3_seq z3_seq
  | Mk_Seq_In_Re z3_seq "z3_re option"
  | Mk_Or "z3_ast list"
  | Mk_And "z3_ast list"
  | Mk_Not z3_ast
  | Mk_Ite z3_ast z3_ast z3_ast

subsection \<open>Meaning of the terms\<close>

text \<open>
  Membership of a string in a regular expression is decided by derivatives:
  \<open>re_nullable\<close> tells whether the empty string is accepted, and \<open>re_deriv c r\<close>
  accepts the strings \<open>w\<close> with \<open>c # w\<close> accepted by \<open>r\<close>.  A range with bounds
  that are not single characters is empty.
\<close>

fun re_nullable :: "z3_re \<Rightarrow> bool" where
  "re_nullable (Re_Range a b) = False"
| "re_nullable (Seq_To_Re s) = (s = [])"
| "re_nullable (Re_Union rs) = list_ex re_nullable rs"
| "re_nullable (Re_Concat rs) = list_all re_nullable rs"
| "re_nullable (Re_Star r) = True"
| "re_nullable (Re_Plus r) = re_nullable r"

definition in_range :: "string \<Rightarrow> string \<Rightarrow> char \<Rightarrow> bool" where
  "in_range a b c =
     (case (a, b) of
        ([x], [y]) \<Rightarrow> (of_char x :: nat) \<le> of_char c \<and> (of_char c :: nat) \<le> of_char y
      | _ \<Rightarrow> False)"

fun re_deriv :: "char \<Rightarrow> z3_re \<Rightarrow> z3_re" where
  "re_deriv c (Re_Range a b) = (if in_range a b c then Seq_To_Re [] else Re_Union [])"
| "re_deriv c (Seq_To_Re []) = Re_Union []"
| "re_deriv c (Seq_To_Re (x # xs)) = (if c = x then Seq_To_Re xs else Re_Union [])"
| "re_deriv c (Re_Union rs) = Re_Union (map (re_deriv c) rs)"
| "re_deriv c (Re_Concat []) = Re_Union []"
| "re_deriv c (Re_Concat (r # rs)) =
     (if re_nullable r
      then Re_Union [Re_Concat (re_deriv c r # rs), re_deriv c (Re_Concat rs)]
      else Re_Concat (re_deriv c r # rs))"
| "re_deriv c (Re_Star r) = Re_Concat [re_deriv c r, Re_Star r]"
| "re_deriv c (Re_Plus r) = Re_Concat [re_deriv c r, Re_Star r]"

definition re_match :: "z3_re \<Rightarrow> string \<Rightarrow> bool" where
  "re_match r w = re_nullable (foldl (\<lambda>r c. re_deriv c r) r w)"

text \<open>
  An assignment gives every string constant its value.  Membership in an
  undefined regular expression holds for no string.
\<close>

fun seq_value :: "(string \<Rightarrow> string) \<Rightarrow> z3_seq \<Rightarrow> string" where
  "seq_value env (Mk_Const n) = env n"
| "seq_value env (Mk_String s) = s"

fun holds :: "(string \<Rightarrow> string) \<Rightarrow> z3_ast \<Rightarrow> bool" where
  "holds env Mk_False = False"
| "holds env (Mk_Eq a b) = (seq_value env a = seq_value env b)"
| "holds env (Mk_Seq_In_Re s None) = False"
| "holds env (Mk_Seq_In_Re s (Some r)) = re_match r (seq_value env s)"
| "holds env (Mk_Or fs) = list_ex (holds env) fs"
| "holds env (Mk_And fs) = list_all (holds env) fs"
| "holds env (Mk_Not f) = (\<not> holds env f)"
| "holds env (Mk_Ite c t e) = (if holds env c then holds env t else holds env e)"

text \<open>The assignment of the two constants \<open>path\<close> and \<open>cap\<close> of the checker.\<close>

definition assignment :: "string \<Rightarrow> string \<Rightarrow> string \<Rightarrow> string" where
  "assignment p c n = (if n = ''path'' then p else if n = ''cap'' then c else [])"

section \<open>From a path pattern to a regular expression\<close>

text \<open>
  \<open>path.split(/([+]|\*$)/)\<close>: the pattern is cut at every \<open>+\<close> and at a final
  \<open>*\<close>; the separators are kept, and the pieces around them may be empty.
\<close>

fun split_from :: "string \<Rightarrow> string \<Rightarrow> string list" where
  "split_from acc [] = [acc]"
| "split_from acc (c # cs) =
     (if c = CHR ''+'' \<or> (c = CHR ''*'' \<and> cs = [])
      then acc # [c] # split_from [] cs
      else split_from (acc @ [c]) cs)"

definition split_wildcards :: "string \<Rightarrow> string list" where
  "split_wildcards s = split_from [] s"

definition wildcardRanges :: "z3_re list" where
  "wildcardRanges =
     [Re_Range ''a'' ''z'', Re_Range ''A'' ''Z'', Re_Range ''0'' ''9'',
      Seq_To_Re ''-'', Seq_To_Re ''_'', Seq_To_Re ''.'']"

text \<open>One turn of the loop over the parts: the expression pushed, if any.\<close>

definition part_regex :: "string \<Rightarrow> z3_re option" where
  "part_regex part =
     (if part = ''*'' then Some (Re_Star (Re_Union (wildcardRanges @ [Seq_To_Re ''/''])))
      else if part = ''+'' then Some (Re_Plus (Re_Union wildcardRanges))
      else if part \<noteq> [] then Some (Seq_To_Re part)
      else None)"

definition buildRegexFromPath :: "string \<Rightarrow> z3_re option" where
  "buildRegexFromPath s =
     (let reParts = List.map_filter part_regex (split_wildcards s)
      in if length reParts < 2
         then (case reParts of [] \<Rightarrow> None | r # _ \<Rightarrow> Some r)
         else Some (Re_Concat reParts))"

section \<open>The formula of a policy\<close>

text \<open>
  A policy is the object \<open>rules\<close> of the source: its keys in the order of
  \<open>Object.keys\<close>, each with its capability list.  The keys of an object are
  distinct.
\<close>

type_synonym policy = "(string \<times> string list) list"

definition object_keys :: "policy \<Rightarrow> string list" where
  "object_keys rules = map fst rules"

definition rules_at :: "policy \<Rightarrow> string \<Rightarrow> string list" where
  "rules_at rules p = (case map_of rules p of Some caps \<Rightarrow> caps | None \<Rightarrow> [])"

definition buildCapabilitiesMatch :: "z3_seq \<Rightarrow> string list \<Rightarrow> z3_ast" where
  "buildCapabilitiesMatch inputCap capabilities =
     (let capMatches = map (\<lambda>cap. Mk_Eq inputCap (Mk_String cap))
                         (filter (\<lambda>cap. cap \<noteq> ''deny'') capabilities)
      in if length capMatches = 0 then Mk_False else Mk_Or capMatches)"

definition denyPaths :: "policy \<Rightarrow> string list" where
  "denyPaths rules = filter (\<lambda>p. ''deny'' \<in> set (rules_at rules p)) (object_keys rules)"

definition isDenied :: "z3_seq \<Rightarrow> policy \<Rightarrow> z3_ast" where
  "isDenied inputPath rules =
     Mk_Or (map (\<lambda>p. Mk_Seq_In_Re inputPath (buildRegexFromPath p)) (denyPaths rules))"

definition allowPaths :: "policy \<Rightarrow> string list" where
  "allowPaths rules =
     filter (\<lambda>p. list_ex (\<lambda>c. c \<noteq> ''deny'') (rules_at rules p)) (object_keys rules)"

definition sortedAllowPaths :: "collation \<Rightarrow> policy \<Rightarrow> string list" where
  "sortedAllowPaths localeCompare rules =
     array_sort (comparePathPriority localeCompare) (allowPaths rules)"

text \<open>The loop over the sorted patterns: each turn wraps the formula so far.\<close>

definition isAllowed :: "collation \<Rightarrow> z3_seq \<Rightarrow> z3_seq \<Rightarrow> policy \<Rightarrow> z3_ast" where
  "isAllowed localeCompare inputPath inputCap rules =
     foldl (\<lambda>acc p. Mk_Ite (Mk_Seq_In_Re inputPath (buildRegexFromPath p))
                            (buildCapabilitiesMatch inputCap (rules_at rules p)) acc)
           Mk_False (sortedAllowPaths localeCompare rules)"

definition buildPolicyMatch :: "collation \<Rightarrow> z3_seq \<Rightarrow> z3_seq \<Rightarrow> policy \<Rightarrow> z3_ast" where
  "buildPolicyMatch localeCompare inputPath inputCap rules =
     Mk_And [isAllowed localeCompare inputPath inputCap rules, Mk_Not (isDenied inputPath rules)]"

section \<open>The escalation check\<close>

datatype Z3_lbool = Z3_L_FALSE | Z3_L_UNDEF | Z3_L_TRUE

text \<open>
  The solver is outside the repository.  The checker uses three of its
  operations: the decision procedure on the asserted formula, the string a
  model gives to a constant, and the printer of terms.
\<close>

record z3_solver =
  solver_check :: "z3_ast \<Rightarrow> Z3_lbool"
  model_string :: "z3_ast \<Rightarrow> string \<Rightarrow> string option"
  ast_to_string :: "z3_ast \<Rightarrow> string"

record z3_policy_ast =
  currentPolicyAst :: string
  newPolicyAst :: string

definition escalationQuery :: "collation \<Rightarrow> policy \<Rightarrow> policy \<Rightarrow> z3_ast" where
  "escalationQuery localeCompare currentRules newRules =
     Mk_And [Mk_Not (buildPolicyMatch localeCompare (Mk_Const ''path'') (Mk_Const ''cap'')
                       currentRules),
             buildPolicyMatch localeCompare (Mk_Const ''path'') (Mk_Const ''cap'') newRules]"

record PolicyCheckResult =
  result :: bool
  path :: "string option"
  capability :: "string option"
  z3 :: z3_policy_ast

definition checkPrivilegeEscalation ::
  "collation \<Rightarrow> z3_solver \<Rightarrow> policy \<Rightarrow> policy \<Rightarrow> PolicyCheckResult" where
  "checkPrivilegeEscalation localeCompare Z3 currentRules newRules =
     (let inputPath = Mk_Const ''path'';
          inputCap = Mk_Const ''cap'';
          currentPolicy = buildPolicyMatch localeCompare inputPath inputCap currentRules;
          newPolicy = buildPolicyMatch localeCompare inputPath inputCap newRules;
          z3PolicyAst = \<lparr>currentPolicyAst = ast_to_string Z3 currentPolicy,
                         newPolicyAst = ast_to_string Z3 newPolicy\<rparr>;
          asserted = Mk_And [Mk_Not currentPolicy, newPolicy];
          verdict = solver_check Z3 asserted
      in if verdict = Z3_L_TRUE
         then \<lparr>result = True,
               path = model_string Z3 asserted ''path'',
               capability = model_string Z3 asserted ''cap'',
               z3 = z3PolicyAst\<rparr>
         else \<lparr>result = False, path = None, capability = None, z3 = z3PolicyAst\<rparr>)"

section \<open>Notions used in the statements\<close>

text \<open>
  The first tie-breaker compares first-wildcard positions by the sign of their
  difference.
\<close>

definition fw_less :: "js_number \<Rightarrow> js_number \<Rightarrow> bool" where
  "fw_less a b = js_negative (js_sub a b)"

text \<open>
  The priority relation of the comparator, written out rule by rule: \<open>higher lc p q\<close>
  says that \<open>p\<close> has the higher priority under the collation \<open>lc\<close>.
\<close>

definition higher :: "collation \<Rightarrow> string \<Rightarrow> string \<Rightarrow> bool" where
  "higher lc p q \<longleftrightarrow>
     fw_less (firstWildcard q) (firstWildcard p) \<or>
     firstWildcard p = firstWildcard q \<and>
     (\<not> endsWith p (CHR ''*'') \<and> endsWith q (CHR ''*'') \<or>
      endsWith p (CHR ''*'') = endsWith q (CHR ''*'') \<and>
      (plusCount p < plusCount q \<or>
       plusCount p = plusCount q \<and>
       (length q < length p \<or>
        length p = length q \<and> 0 < lc q p)))"

text \<open>
  What the comparator needs from the host's collation.  It is a consistent
  comparator when exchanging the arguments negates the result and the strict
  order it induces is transitive.  It separates a set of strings when it
  answers \<open>0\<close> on no two distinct strings of the set.
\<close>

definition consistent_comparator :: "collation \<Rightarrow> bool" where
  "consistent_comparator lc =
     ((\<forall>a b. lc a b = - lc b a) \<and>
      (\<forall>a b c. 0 < lc a b \<and> 0 < lc b c \<longrightarrow> 0 < lc a c))"

definition separates :: "collation \<Rightarrow> string set \<Rightarrow> bool" where
  "separates lc S = (\<forall>a\<in>S. \<forall>b\<in>S. lc a b = 0 \<longrightarrow> a = b)"


text \<open>
  One collation, the order by character code with the results \<open>-1\<close>, \<open>0\<close> and
  \<open>1\<close>, to run the checker on concrete requests.  The host's collation is
  another one (it puts \<open>a\<close> before \<open>B\<close>); the statements below are about every
  collation, under the hypotheses they name.
\<close>

fun code_unit_collation :: "string \<Rightarrow> string \<Rightarrow> int" where
  "code_unit_collation [] [] = 0"
| "code_unit_collation [] (y # ys) = - 1"
| "code_unit_collation (x # xs) [] = 1"
| "code_unit_collation (x # xs) (y # ys) =
     (if (of_char x :: nat) < of_char y then - 1
      else if (of_char y :: nat) < of_char x then 1
      else code_unit_collation xs ys)"

text \<open>A path matches a pattern when it belongs to the compiled regular expression.\<close>

definition pattern_matches :: "string \<Rightarrow> string \<Rightarrow> bool" where
  "pattern_matches p s = (case buildRegexFromPath p of None \<Rightarrow> False | Some r \<Rightarrow> re_match r s)"

text \<open>A formula is satisfiable when some assignment of the constants makes it true.\<close>

definition satisfiable :: "z3_ast \<Rightarrow> bool" where
  "satisfiable f = (\<exists>env. holds env f)"

text \<open>
  The solver is sound on a formula when it answers \<open>sat\<close> only if the formula is
  satisfiable.
\<close>

definition sound_verdict :: "z3_solver \<Rightarrow> z3_ast \<Rightarrow> bool" where
  "sound_verdict Z3 f = (solver_check Z3 f = Z3_L_TRUE \<longrightarrow> satisfiable f)"

text \<open>
  A solver with a fixed answer: the verdict \<open>v\<close> on every formula, and models that
  give \<open>p\<close> to \<open>path\<close> and \<open>c\<close> to \<open>cap\<close>.  It runs the checker on concrete
  requests.
\<close>

definition fixed_solver :: "Z3_lbool \<Rightarrow> string \<Rightarrow> string \<Rightarrow> z3_solver" where
  "fixed_solver v p c =
     \<lparr>solver_check = (\<lambda>f. v),
      model_string = (\<lambda>f n. if n = ''path'' then Some p else if n = ''cap'' then Some c else None),
      ast_to_string = (\<lambda>f. [])\<rparr>"

text \<open>
  The language of a regular expression, as sets of strings: the reference
  against which the derivative matcher is proved correct.
\<close>

definition conc :: "string set \<Rightarrow> string set \<Rightarrow> string set" where
  "conc A B = {u @ v | u v. u \<in> A \<and> v \<in> B}"

inductive_set star :: "string set \<Rightarrow> string set" for A :: "string set" where
  star_empty: "[] \<in> star A"
| star_step: "u \<in> A \<Longrightarrow> v \<in> star A \<Longrightarrow> u @ v \<in> star A"

fun lang :: "z3_re \<Rightarrow> string set" where
  "lang (Re_Range a b) = {[c] | c. in_range a b c}"
| "lang (Seq_To_Re s) = {s}"
| "lang (Re_Union rs) = \<Union> (set (map lang rs))"
| "lang (Re_Concat rs) = foldr conc (map lang rs) {[]}"
| "lang (Re_Star r) = star (lang r)"
| "lang (Re_Plus r) = conc (lang r) (star (lang r))"

text \<open>The characters of \<open>wildcardRanges\<close>: the literal alphabet without \<open>/\<close>.\<close>

definition literal_char :: "char \<Rightarrow> bool" where
  "literal_char c =
     (in_range ''a'' ''z'' c \<or> in_range ''A'' ''Z'' c \<or> in_range ''0'' ''9'' c \<or>
      c = CHR ''-'' \<or> c = CHR ''_'' \<or> c = CHR ''.'')"

text \<open>The strings that follow a first character \<open>c\<close> in a language.\<close>

definition left_quotient :: "char \<Rightarrow> string set \<Rightarrow> string set" where
  "left_quotient c A = {w. c # w \<in> A}"

text \<open>
  The solver answers a formula correctly when it answers \<open>sat\<close> on a satisfiable
  formula, and every \<open>sat\<close> answer comes with a model whose values of \<open>path\<close> and
  \<open>cap\<close> satisfy the formula.
\<close>

definition correct_answer :: "z3_solver \<Rightarrow> z3_ast \<Rightarrow> bool" where
  "correct_answer Z3 f =
     ((satisfiable f \<longrightarrow> solver_check Z3 f = Z3_L_TRUE) \<and>
      (solver_check Z3 f = Z3_L_TRUE \<longrightarrow>
         (\<exists>p c. model_string Z3 f ''path'' = Some p \<and> model_string Z3 f ''cap'' = Some c \<and>
                holds (assignment p c) f)))"

section \<open>The comparator is a strict order\<close>

lemma firstWildcard_cases: "firstWildcard p = Infinity \<or> (\<exists>n. firstWildcard p = Finite n)"
  by (auto simp: firstWildcard_def)

lemma code_unit_collation_neg: "code_unit_collation a b = - code_unit_collation b a"
  by (induction a b rule: code_unit_collation.induct) auto

lemma code_unit_collation_zero: "code_unit_collation a b = 0 \<Longrightarrow> a = b"
  by (induction a b rule: code_unit_collation.induct) (auto split: if_splits)

lemma code_unit_collation_trans:
  "0 < code_unit_collation a b \<Longrightarrow> 0 < code_unit_collation b c \<Longrightarrow> 0 < code_unit_collation a c"
proof (induction a b arbitrary: c rule: code_unit_collation.induct)
  case (3 x xs)
  then show ?case by (cases c) auto
next
  case (4 x xs y ys)
  then show ?case by (cases c) (auto split: if_splits)
qed auto

lemma code_unit_collation_consistent: "consistent_comparator code_unit_collation"
  unfolding consistent_comparator_def
  using code_unit_collation_neg code_unit_collation_trans by blast

lemma code_unit_collation_separates: "separates code_unit_collation S"
  unfolding separates_def using code_unit_collation_zero by blast

lemma collation_neg: "consistent_comparator lc \<Longrightarrow> lc a b = - lc b a"
  unfolding consistent_comparator_def by blast

lemma collation_refl: "consistent_comparator lc \<Longrightarrow> lc a a = 0"
  using collation_neg[of lc a a] by simp

lemma collation_trans:
  "consistent_comparator lc \<Longrightarrow> 0 < lc a b \<Longrightarrow> 0 < lc b c \<Longrightarrow> 0 < lc a c"
  unfolding consistent_comparator_def by blast

lemma positive_iff_higher: "js_positive (comparePathPriority lc p q) \<longleftrightarrow> higher lc p q"
  using firstWildcard_cases[of p] firstWildcard_cases[of q]
  by (auto simp: comparePathPriority_def higher_def fw_less_def Let_def)

lemma negative_iff_higher:
  "consistent_comparator lc \<Longrightarrow> js_negative (comparePathPriority lc p q) \<longleftrightarrow> higher lc q p"
  using firstWildcard_cases[of p] firstWildcard_cases[of q] collation_neg[of lc p q]
  by (auto simp: comparePathPriority_def higher_def fw_less_def Let_def)



text \<open>
  The comparator answers \<open>0\<close> exactly when the first four rules tie and the
  collation answers \<open>0\<close>: a tie of the collation on two distinct patterns is
  a tie of the comparator.
\<close>

lemma compare_zero_iff:
  "comparePathPriority lc p q = Finite 0 \<longleftrightarrow>
     firstWildcard p = firstWildcard q \<and>
     endsWith p (CHR ''*'') = endsWith q (CHR ''*'') \<and>
     plusCount p = plusCount q \<and> length p = length q \<and> lc q p = 0"
  using firstWildcard_cases[of p] firstWildcard_cases[of q]
  by (auto simp: comparePathPriority_def Let_def)

lemma higher_trans:
  assumes "consistent_comparator lc" "higher lc p q" "higher lc q r"
  shows "higher lc p r"
  using assms(2,3) firstWildcard_cases[of p] firstWildcard_cases[of q] firstWildcard_cases[of r]
    collation_trans[OF assms(1), of r q p]
  unfolding higher_def fw_less_def
  by (elim disjE exE conjE; simp; linarith?)

lemma higher_total:
  assumes "consistent_comparator lc" "lc p q = 0 \<longrightarrow> p = q" "p \<noteq> q"
  shows "higher lc p q \<or> higher lc q p"
  using assms(2,3) firstWildcard_cases[of p] firstWildcard_cases[of q]
    collation_neg[OF assms(1), of p q]
  unfolding higher_def fw_less_def
  by (elim disjE exE conjE; simp; linarith?)

lemma higher_irrefl: "consistent_comparator lc \<Longrightarrow> \<not> higher lc p p"
  using firstWildcard_cases[of p] by (auto simp: higher_def fw_less_def collation_refl)

section \<open>Sorting with the comparator\<close>

lemma set_sort_insert: "set (sort_insert cmp x xs) = insert x (set xs)"
  by (induction xs) auto

lemma distinct_sort_insert: "distinct xs \<Longrightarrow> x \<notin> set xs \<Longrightarrow> distinct (sort_insert cmp x xs)"
  by (induction xs) (auto simp: set_sort_insert)

lemma array_sort_snoc: "array_sort cmp (xs @ [x]) = sort_insert cmp x (array_sort cmp xs)"
  by (simp add: array_sort_def)

lemma array_sort_Nil: "array_sort cmp [] = []"
  by (simp add: array_sort_def)

lemma set_array_sort: "set (array_sort cmp xs) = set xs"
  by (induction xs rule: rev_induct) (auto simp: array_sort_snoc set_sort_insert array_sort_Nil)

lemma distinct_array_sort: "distinct xs \<Longrightarrow> distinct (array_sort cmp xs)"
  by (induction xs rule: rev_induct)
     (auto simp: array_sort_snoc set_array_sort distinct_sort_insert array_sort_Nil)

text \<open>Ascending order: every element is lower than those after it.\<close>

lemma ascending_sort_insert:
  assumes "consistent_comparator lc" and "separates lc (insert x (set xs))"
    and "sorted_wrt (\<lambda>a b. higher lc b a) xs" and "x \<notin> set xs"
  shows "sorted_wrt (\<lambda>a b. higher lc b a) (sort_insert (comparePathPriority lc) x xs)"
  using assms(2-)
proof (induction xs)
  case Nil
  then show ?case by simp
next
  case (Cons y ys)
  have sep: "separates lc (insert x (set ys))"
    using Cons.prems(1) by (auto simp: separates_def)
  show ?case
  proof (cases "js_negative (comparePathPriority lc x y)")
    case True
    then have xy: "higher lc y x" using assms(1) by (simp add: negative_iff_higher)
    have "higher lc z x" if "z \<in> set ys" for z
      using that Cons.prems(2) xy higher_trans[OF assms(1)] by auto
    with True xy Cons.prems show ?thesis by auto
  next
    case False
    then have "\<not> higher lc y x" using assms(1) by (simp add: negative_iff_higher)
    moreover have "x \<noteq> y" using Cons.prems by auto
    moreover have "lc x y = 0 \<longrightarrow> x = y" using Cons.prems(1) by (auto simp: separates_def)
    ultimately have "higher lc x y" using higher_total[OF assms(1), of x y] by blast
    with False Cons.IH[OF sep] Cons.prems show ?thesis by (auto simp: set_sort_insert)
  qed
qed

lemma ascending_array_sort:
  assumes "consistent_comparator lc"
  shows "separates lc (set xs) \<Longrightarrow> distinct xs \<Longrightarrow>
     sorted_wrt (\<lambda>a b. higher lc b a) (array_sort (comparePathPriority lc) xs)"
proof (induction xs rule: rev_induct)
  case Nil
  then show ?case by (simp add: array_sort_Nil)
next
  case (snoc x xs)
  have "separates lc (set xs)" using snoc.prems(1) by (auto simp: separates_def)
  with snoc have s: "sorted_wrt (\<lambda>a b. higher lc b a) (array_sort (comparePathPriority lc) xs)"
    by simp
  have p: "separates lc (insert x (set (array_sort (comparePathPriority lc) xs)))"
    using snoc.prems(1) by (simp add: set_array_sort)
  have n: "x \<notin> set (array_sort (comparePathPriority lc) xs)"
    using snoc.prems(2) by (simp add: set_array_sort)
  show ?case
    unfolding array_sort_snoc by (rule ascending_sort_insert[OF assms p s n])
qed

lemma ascending_unique:
  assumes "consistent_comparator lc"
    and "sorted_wrt (\<lambda>a b. higher lc b a) xs" "sorted_wrt (\<lambda>a b. higher lc b a) ys"
    and "set xs = set ys"
  shows "xs = ys"
  using assms(2-)
proof (induction xs arbitrary: ys)
  case Nil
  then show ?case by simp
next
  case (Cons x xs)
  then obtain y ys' where ys: "ys = y # ys'" by (cases ys) auto
  have "x = y"
  proof (rule ccontr)
    assume ne: "x \<noteq> y"
    then have "x \<in> set ys'" "y \<in> set xs" using Cons.prems(3) ys by auto
    then have "higher lc x y" "higher lc y x" using Cons.prems(1,2) ys by auto
    then show False using higher_trans[OF assms(1)] higher_irrefl[OF assms(1)] by blast
  qed
  moreover have "x \<notin> set xs" "y \<notin> set ys'"
    using Cons.prems(1,2) ys higher_irrefl[OF assms(1)] by auto
  ultimately have "set xs = set ys'" using Cons.prems(3) ys by auto
  with Cons ys \<open>x = y\<close> show ?case by auto
qed

lemma array_sort_perm:
  assumes "consistent_comparator lc" "separates lc (set xs)"
    and "distinct xs" "distinct ys" "set xs = set ys"
  shows "array_sort (comparePathPriority lc) xs = array_sort (comparePathPriority lc) ys"
proof (rule ascending_unique[OF assms(1)])
  show "sorted_wrt (\<lambda>a b. higher lc b a) (array_sort (comparePathPriority lc) xs)"
    using assms by (intro ascending_array_sort)
  show "sorted_wrt (\<lambda>a b. higher lc b a) (array_sort (comparePathPriority lc) ys)"
    using assms by (intro ascending_array_sort) simp_all
  show "set (array_sort (comparePathPriority lc) xs) = set (array_sort (comparePathPriority lc) ys)"
    using assms(5) by (simp add: set_array_sort)
qed

section \<open>Evaluating the formula of a policy\<close>

lemma holds_path_in_re:
  "holds (assignment s c) (Mk_Seq_In_Re (Mk_Const ''path'') (buildRegexFromPath p)) = pattern_matches p s"
  by (simp add: pattern_matches_def assignment_def split: option.splits)

lemma holds_capabilities:
  "holds (assignment s c) (buildCapabilitiesMatch (Mk_Const ''cap'') caps) = (c \<in> set caps \<and> c \<noteq> ''deny'')"
  by (auto simp: buildCapabilitiesMatch_def assignment_def list_ex_iff Let_def filter_empty_conv)

lemma rules_at_member: "distinct (map fst rules) \<Longrightarrow> (p, caps) \<in> set rules \<Longrightarrow> rules_at rules p = caps"
  by (simp add: rules_at_def)

lemma holds_isDenied:
  "holds (assignment s c) (isDenied (Mk_Const ''path'') rules) = (\<exists>p\<in>set (denyPaths rules). pattern_matches p s)"
  by (simp add: isDenied_def list_ex_iff holds_path_in_re)

lemma isAllowed_foldr:
  "isAllowed lc ip ic rules =
     foldr (\<lambda>p acc. Mk_Ite (Mk_Seq_In_Re ip (buildRegexFromPath p))
                            (buildCapabilitiesMatch ic (rules_at rules p)) acc)
           (rev (sortedAllowPaths lc rules)) Mk_False"
  by (simp add: isAllowed_def foldl_conv_foldr)

lemma holds_cascade:
  "holds (assignment s c)
     (foldr (\<lambda>p acc. Mk_Ite (Mk_Seq_In_Re (Mk_Const ''path'') (buildRegexFromPath p))
                             (buildCapabilitiesMatch (Mk_Const ''cap'') (rules_at rules p)) acc) xs Mk_False)
   = (case find (\<lambda>p. pattern_matches p s) xs of
        None \<Rightarrow> False
      | Some p \<Rightarrow> c \<in> set (rules_at rules p) \<and> c \<noteq> ''deny'')"
  by (induction xs) (simp_all add: holds_path_in_re holds_capabilities)

lemma distinct_allowPaths: "distinct (map fst rules) \<Longrightarrow> distinct (allowPaths rules)"
  by (simp add: allowPaths_def object_keys_def)

lemma descending_sorted:
  assumes "consistent_comparator lc" "separates lc (set (allowPaths rules))"
    and "distinct (map fst rules)"
  shows "sorted_wrt (higher lc) (rev (sortedAllowPaths lc rules))"
  using ascending_array_sort[OF assms(1,2) distinct_allowPaths[OF assms(3)]]
  by (simp add: sortedAllowPaths_def sorted_wrt_rev)

text \<open>
  Sorting at most one pattern never calls the comparator: on policies with a
  single rule the formulas are the same for every collation.
\<close>

lemma single_rule_any_collation:
  "buildPolicyMatch lc inputPath inputCap [r] = buildPolicyMatch lc' inputPath inputCap [r]"
  by (simp add: buildPolicyMatch_def isAllowed_def sortedAllowPaths_def allowPaths_def
      object_keys_def array_sort_def)

lemma single_rule_query_any_collation:
  "escalationQuery lc [r] [r'] = escalationQuery lc' [r] [r']"
  unfolding escalationQuery_def
  using single_rule_any_collation[of lc _ _ r lc'] single_rule_any_collation[of lc _ _ r' lc']
  by simp

lemma set_sortedAllowPaths: "set (sortedAllowPaths lc rules) = set (allowPaths rules)"
  by (simp add: sortedAllowPaths_def set_array_sort)

lemma find_descending:
  assumes "sorted_wrt (higher lc) xs" "\<exists>q\<in>set xs. P q"
  shows "\<exists>p\<in>set xs. find P xs = Some p \<and> P p \<and> (\<forall>q\<in>set xs. q \<noteq> p \<and> P q \<longrightarrow> higher lc p q)"
  using assms
proof (induction xs)
  case Nil
  then show ?case by simp
next
  case (Cons x xs)
  show ?case
  proof (cases "P x")
    case True
    with Cons.prems show ?thesis by auto
  next
    case False
    with Cons.prems have "sorted_wrt (higher lc) xs" "\<exists>q\<in>set xs. P q" by auto
    from Cons.IH[OF this] obtain p where
      p: "p \<in> set xs" "find P xs = Some p" "P p" "\<forall>q\<in>set xs. q \<noteq> p \<and> P q \<longrightarrow> higher lc p q"
      by blast
    with False show ?thesis by auto
  qed
qed

section \<open>The claims\<close>



text \<open>
  C2.  If a rule of the policy whose capability list contains \<open>deny\<close> compiles to
  a regular expression that matches the path, the formula of the policy is
  false at that path for every capability, whatever allow rules match the path
  and whatever their priority.
\<close>

theorem deny_vetoes_grant:
  assumes "distinct (map fst rules)" and "(p, caps) \<in> set rules" and "''deny'' \<in> set caps"
    and "buildRegexFromPath p = Some r" and "re_match r s"
  shows "\<not> holds (assignment s c) (buildPolicyMatch lc (Mk_Const ''path'') (Mk_Const ''cap'') rules)"
proof -
  have "rules_at rules p = caps" using assms(1,2) by (rule rules_at_member)
  moreover have "p \<in> set (object_keys rules)" using assms(2) by (force simp: object_keys_def)
  ultimately have "p \<in> set (denyPaths rules)" using assms(3) by (simp add: denyPaths_def)
  moreover have "pattern_matches p s" using assms(4,5) by (simp add: pattern_matches_def)
  ultimately have "holds (assignment s c) (isDenied (Mk_Const ''path'') rules)"
    unfolding holds_isDenied by blast
  then show ?thesis by (simp add: buildPolicyMatch_def)
qed

theorem deny_vetoes_grant_witness:
  "distinct (map fst [(''secret/admin'', [''read'']), (''secret/*'', [''deny''])]) \<and>
   (''secret/*'', [''deny'']) \<in> set [(''secret/admin'', [''read'']), (''secret/*'', [''deny''])] \<and>
   ''deny'' \<in> set [''deny''] \<and>
   buildRegexFromPath ''secret/*'' =
     Some (Re_Concat [Seq_To_Re ''secret/'', Re_Star (Re_Union (wildcardRanges @ [Seq_To_Re ''/'']))]) \<and>
   re_match (Re_Concat [Seq_To_Re ''secret/'', Re_Star (Re_Union (wildcardRanges @ [Seq_To_Re ''/'']))])
     ''secret/admin'' \<and>
   \<not> holds (assignment ''secret/admin'' ''read'')
       (buildPolicyMatch code_unit_collation (Mk_Const ''path'') (Mk_Const ''cap'')
          [(''secret/admin'', [''read'']), (''secret/*'', [''deny''])])"
proof -
  have d: "distinct (map fst [(''secret/admin'', [''read'']), (''secret/*'', [''deny''])])" by simp
  have m: "(''secret/*'', [''deny'']) \<in> set [(''secret/admin'', [''read'']), (''secret/*'', [''deny''])]"
    by simp
  have c: "''deny'' \<in> set [''deny'']" by simp
  have b: "buildRegexFromPath ''secret/*'' =
     Some (Re_Concat [Seq_To_Re ''secret/'', Re_Star (Re_Union (wildcardRanges @ [Seq_To_Re ''/'']))])"
    by code_simp
  have r: "re_match (Re_Concat [Seq_To_Re ''secret/'', Re_Star (Re_Union (wildcardRanges @ [Seq_To_Re ''/'']))])
     ''secret/admin''" by code_simp
  show ?thesis using d m c b r deny_vetoes_grant[OF d m c b r, of "''read''" code_unit_collation] by blast
qed

text \<open>
  The query of a policy against itself is false under every assignment.
\<close>

lemma query_self_unsat: "\<not> holds env (escalationQuery lc P P)"
  by (simp add: escalationQuery_def)

text \<open>
  C4.  Checking a policy against itself: the asserted query is unsatisfiable,
  so with a solver that answers \<open>sat\<close> only on satisfiable formulas the check
  returns the no-escalation result, with a null path and a null capability.
  The patterns of a policy are non-empty strings (for the empty pattern the
  source hands \<open>undefined\<close> to the solver's interface).
\<close>

theorem self_check_no_escalation:
  assumes "[] \<notin> set (object_keys P)" and "sound_verdict Z3 (escalationQuery lc P P)"
  shows "\<not> satisfiable (escalationQuery lc P P) \<and>
         result (checkPrivilegeEscalation lc Z3 P P) = False \<and>
         path (checkPrivilegeEscalation lc Z3 P P) = None \<and>
         capability (checkPrivilegeEscalation lc Z3 P P) = None"
proof -
  have u: "\<not> satisfiable (escalationQuery lc P P)"
    by (simp add: satisfiable_def query_self_unsat)
  with assms have "solver_check Z3 (escalationQuery lc P P) \<noteq> Z3_L_TRUE"
    by (auto simp: sound_verdict_def)
  then show ?thesis using u
    by (simp add: checkPrivilegeEscalation_def escalationQuery_def Let_def)
qed

theorem self_check_no_escalation_witness:
  "[] \<notin> set (object_keys [(''secret/app/*'', [''read'']), (''secret/app/admin'', [''deny''])]) \<and>
   sound_verdict (fixed_solver Z3_L_FALSE [] [])
     (escalationQuery code_unit_collation [(''secret/app/*'', [''read'']), (''secret/app/admin'', [''deny''])]
                      [(''secret/app/*'', [''read'']), (''secret/app/admin'', [''deny''])]) \<and>
   result (checkPrivilegeEscalation code_unit_collation (fixed_solver Z3_L_FALSE [] [])
     [(''secret/app/*'', [''read'']), (''secret/app/admin'', [''deny''])]
     [(''secret/app/*'', [''read'']), (''secret/app/admin'', [''deny''])]) = False"
proof -
  have s: "sound_verdict (fixed_solver Z3_L_FALSE [] [])
     (escalationQuery code_unit_collation [(''secret/app/*'', [''read'']), (''secret/app/admin'', [''deny''])]
                      [(''secret/app/*'', [''read'']), (''secret/app/admin'', [''deny''])])"
    by (simp add: sound_verdict_def fixed_solver_def)
  have k: "[] \<notin> set (object_keys [(''secret/app/*'', [''read'']), (''secret/app/admin'', [''deny''])])"
    by (simp add: object_keys_def)
  show ?thesis using k s self_check_no_escalation[OF k s] by simp
qed

text \<open>
  C1 as stated fails.  With a solver that answers \<open>unknown\<close>, the check returns
  the very result it returns for \<open>unsat\<close>: no escalation, a null path and a null
  capability, here on a request whose new policy does widen the current one.
  Both policies have a single rule, so the collation plays no part.
\<close>

theorem unknown_reported_as_no_escalation_counterexample:
  "solver_check (fixed_solver Z3_L_UNDEF [] [])
     (escalationQuery code_unit_collation [(''secret/app/db'', [''read''])] [(''secret/app/*'', [''read''])]) = Z3_L_UNDEF \<and>
   checkPrivilegeEscalation code_unit_collation (fixed_solver Z3_L_UNDEF [] [])
     [(''secret/app/db'', [''read''])] [(''secret/app/*'', [''read''])] =
   checkPrivilegeEscalation code_unit_collation (fixed_solver Z3_L_FALSE [] [])
     [(''secret/app/db'', [''read''])] [(''secret/app/*'', [''read''])] \<and>
   result (checkPrivilegeEscalation code_unit_collation (fixed_solver Z3_L_UNDEF [] [])
     [(''secret/app/db'', [''read''])] [(''secret/app/*'', [''read''])]) = False \<and>
   path (checkPrivilegeEscalation code_unit_collation (fixed_solver Z3_L_UNDEF [] [])
     [(''secret/app/db'', [''read''])] [(''secret/app/*'', [''read''])]) = None \<and>
   capability (checkPrivilegeEscalation code_unit_collation (fixed_solver Z3_L_UNDEF [] [])
     [(''secret/app/db'', [''read''])] [(''secret/app/*'', [''read''])]) = None"
  by (simp add: checkPrivilegeEscalation_def fixed_solver_def Let_def)

text \<open>
  C1, amended.  The check tests the verdict for \<open>sat\<close> only: for policies with
  non-empty patterns, on every other verdict, \<open>unknown\<close> as well as \<open>unsat\<close>, it
  returns the no-escalation result with a null path and a null capability,
  and the texts of the two formulas.
\<close>

theorem not_sat_reported_as_no_escalation:
  assumes "[] \<notin> set (object_keys currentRules) \<union> set (object_keys newRules)"
    and "solver_check Z3 (escalationQuery lc currentRules newRules) \<noteq> Z3_L_TRUE"
  shows "checkPrivilegeEscalation lc Z3 currentRules newRules =
     \<lparr>result = False, path = None, capability = None,
      z3 = \<lparr>currentPolicyAst =
              ast_to_string Z3 (buildPolicyMatch lc (Mk_Const ''path'') (Mk_Const ''cap'') currentRules),
            newPolicyAst =
              ast_to_string Z3 (buildPolicyMatch lc (Mk_Const ''path'') (Mk_Const ''cap'') newRules)\<rparr>\<rparr>"
  using assms by (simp add: checkPrivilegeEscalation_def escalationQuery_def Let_def)

theorem not_sat_reported_as_no_escalation_witness:
  "[] \<notin> set (object_keys [(''secret/app/db'', [''read''])])
        \<union> set (object_keys [(''secret/app/*'', [''read''])]) \<and>
   solver_check (fixed_solver Z3_L_UNDEF [] [])
     (escalationQuery code_unit_collation [(''secret/app/db'', [''read''])] [(''secret/app/*'', [''read''])]) \<noteq> Z3_L_TRUE \<and>
   checkPrivilegeEscalation code_unit_collation (fixed_solver Z3_L_UNDEF [] [])
     [(''secret/app/db'', [''read''])] [(''secret/app/*'', [''read''])] =
     \<lparr>result = False, path = None, capability = None,
      z3 = \<lparr>currentPolicyAst = [], newPolicyAst = []\<rparr>\<rparr>"
proof -
  have h: "solver_check (fixed_solver Z3_L_UNDEF [] [])
     (escalationQuery code_unit_collation [(''secret/app/db'', [''read''])] [(''secret/app/*'', [''read''])]) \<noteq> Z3_L_TRUE"
    by (simp add: fixed_solver_def)
  have k: "[] \<notin> set (object_keys [(''secret/app/db'', [''read''])])
        \<union> set (object_keys [(''secret/app/*'', [''read''])])"
    by (simp add: object_keys_def)
  show ?thesis using k h not_sat_reported_as_no_escalation[OF k h] by (simp add: fixed_solver_def)
qed

subsection \<open>The first wildcard of a pattern\<close>

lemma indexOf_absent: "c \<notin> set s \<Longrightarrow> indexOf s c = - 1"
  by (induction s) auto

lemma indexOf_nonneg: "c \<in> set s \<Longrightarrow> 0 \<le> indexOf s c"
  by (induction s) (auto simp: Let_def)

lemma indexOf_first: "c \<notin> set pre \<Longrightarrow> indexOf (pre @ c # post) c = int (length pre)"
  by (induction pre) (auto simp: Let_def)

lemma indexOf_after: "c \<notin> set pre \<Longrightarrow> c \<in> set post \<Longrightarrow> d \<noteq> c \<Longrightarrow> int (length pre) < indexOf (pre @ d # post) c"
proof (induction pre)
  case Nil
  then show ?case using indexOf_nonneg[of c post] by (auto simp: Let_def)
next
  case (Cons a pre)
  then show ?case by (auto simp: Let_def)
qed

lemma firstWildcard_none:
  "CHR ''+'' \<notin> set s \<Longrightarrow> CHR ''*'' \<notin> set s \<Longrightarrow> firstWildcard s = Infinity"
  by (simp add: firstWildcard_def indexOf_absent)

lemma firstWildcard_at:
  assumes "CHR ''+'' \<notin> set pre" "CHR ''*'' \<notin> set pre" "c = CHR ''+'' \<or> c = CHR ''*''"
  shows "firstWildcard (pre @ c # post) = Finite (int (length pre))"
proof -
  let ?d = "if c = CHR ''+'' then CHR ''*'' else CHR ''+''"
  have c: "indexOf (pre @ c # post) c = int (length pre)"
    using assms by (intro indexOf_first) auto
  have d: "indexOf (pre @ c # post) ?d = - 1 \<or> int (length pre) < indexOf (pre @ c # post) ?d"
  proof (cases "?d \<in> set post")
    case True
    then show ?thesis using assms indexOf_after[of ?d pre post c] by (auto split: if_splits)
  next
    case False
    then have "?d \<notin> set (pre @ c # post)" using assms by (auto split: if_splits)
    then show ?thesis using indexOf_absent by blast
  qed
  show ?thesis using assms(3) c d by (auto simp: firstWildcard_def split: if_splits)
qed

text \<open>
  C9.  The first tie-breaker of the comparator is the difference of the
  first-wildcard positions whenever they differ.  The first-wildcard position
  of a pattern is the index of its first \<open>+\<close> or \<open>*\<close>, wherever the \<open>*\<close> stands, and \<open>Infinity\<close> when it has neither.  So
  \<open>a*b\<close>, which compiles to the literal \<open>a*b\<close>, gets position \<open>1\<close> as \<open>a+b\<close> does:
  it ranks below the literal \<open>abc\<close> and below \<open>ab+\<close>, whose wildcard is at \<open>2\<close>.
\<close>

theorem first_wildcard_counts_literal_star:
  "(firstWildcard p \<noteq> firstWildcard q
      \<longrightarrow> comparePathPriority lc p q = js_sub (firstWildcard p) (firstWildcard q)) \<and>
   (CHR ''+'' \<notin> set s \<and> CHR ''*'' \<notin> set s \<longrightarrow> firstWildcard s = Infinity) \<and>
   (CHR ''+'' \<notin> set pre \<and> CHR ''*'' \<notin> set pre \<and> (c = CHR ''+'' \<or> c = CHR ''*'')
      \<longrightarrow> firstWildcard (pre @ c # post) = Finite (int (length pre))) \<and>
   buildRegexFromPath ''a*b'' = Some (Seq_To_Re ''a*b'') \<and>
   firstWildcard ''a*b'' = Finite 1 \<and>
   firstWildcard ''a+b'' = Finite 1 \<and>
   comparePathPriority lc ''a*b'' ''abc'' = NegInfinity \<and>
   comparePathPriority lc ''a*b'' ''ab+'' = Finite (- 1)"
proof (intro conjI impI)
  show "comparePathPriority lc p q = js_sub (firstWildcard p) (firstWildcard q)"
    if "firstWildcard p \<noteq> firstWildcard q"
    using that by (simp add: comparePathPriority_def)
  show "firstWildcard s = Infinity" if "CHR ''+'' \<notin> set s \<and> CHR ''*'' \<notin> set s"
    using that by (simp add: firstWildcard_none)
  show "firstWildcard (pre @ c # post) = Finite (int (length pre))"
    if "CHR ''+'' \<notin> set pre \<and> CHR ''*'' \<notin> set pre \<and> (c = CHR ''+'' \<or> c = CHR ''*'')"
    using that firstWildcard_at by blast
  show "buildRegexFromPath ''a*b'' = Some (Seq_To_Re ''a*b'')" by code_simp
  show "firstWildcard ''a*b'' = Finite 1" by code_simp
  show "firstWildcard ''a+b'' = Finite 1" by code_simp
  have f1: "firstWildcard ''a*b'' = Finite 1" by code_simp
  have f2: "firstWildcard ''abc'' = Infinity" by code_simp
  have f3: "firstWildcard ''ab+'' = Finite 2" by code_simp
  show "comparePathPriority lc ''a*b'' ''abc'' = NegInfinity"
    by (simp add: comparePathPriority_def f1 f2)
  show "comparePathPriority lc ''a*b'' ''ab+'' = Finite (- 1)"
    by (simp add: comparePathPriority_def f1 f3)
qed

theorem first_wildcard_counts_literal_star_witness:
  "firstWildcard ''a*b'' \<noteq> firstWildcard ''abc'' \<and>
   comparePathPriority code_unit_collation ''a*b'' ''abc'' = js_sub (firstWildcard ''a*b'') (firstWildcard ''abc'') \<and>
   CHR ''+'' \<notin> set ''secret/'' \<and> CHR ''*'' \<notin> set ''secret/'' \<and>
   firstWildcard (''secret/'' @ CHR ''*'' # ''/db'') = Finite 7 \<and>
   CHR ''+'' \<notin> set ''abc'' \<and> CHR ''*'' \<notin> set ''abc'' \<and> firstWildcard ''abc'' = Infinity"
proof -
  have n: "firstWildcard ''a*b'' \<noteq> firstWildcard ''abc''" by code_simp
  show ?thesis
    using n first_wildcard_counts_literal_star[of "''a*b''" "''abc''" code_unit_collation "''abc''"
        "''secret/''"
        "CHR ''*''" "''/db''"]
    by simp
qed

subsection \<open>Removing a rule, reordering the rules\<close>

lemma map_of_filter_other: "k \<noteq> p \<Longrightarrow> map_of (filter (\<lambda>r. fst r \<noteq> p) rules) k = map_of rules k"
  by (induction rules) auto

lemma rules_at_filter_other: "k \<noteq> p \<Longrightarrow> rules_at (filter (\<lambda>r. fst r \<noteq> p) rules) k = rules_at rules k"
  by (simp add: rules_at_def map_of_filter_other)

lemma filter_keys_removed:
  assumes "\<not> Q (rules_at rules p)"
  shows "filter (\<lambda>k. Q (rules_at (filter (\<lambda>r. fst r \<noteq> p) rules) k))
           (object_keys (filter (\<lambda>r. fst r \<noteq> p) rules))
         = filter (\<lambda>k. Q (rules_at rules k)) (object_keys rules)"
proof -
  have "filter (\<lambda>k. Q (rules_at (filter (\<lambda>r. fst r \<noteq> p) rules) k))
           (object_keys (filter (\<lambda>r. fst r \<noteq> p) rules))
        = filter (\<lambda>k. Q (rules_at (filter (\<lambda>r. fst r \<noteq> p) rules) k) \<and> k \<noteq> p) (object_keys rules)"
    by (simp add: object_keys_def filter_map comp_def conj_commute)
  also have "\<dots> = filter (\<lambda>k. Q (rules_at rules k)) (object_keys rules)"
    using assms by (intro filter_cong refl) (metis rules_at_filter_other)
  finally show ?thesis .
qed

lemma foldl_cong_set:
  "(\<And>a x. x \<in> set xs \<Longrightarrow> f a x = g a x) \<Longrightarrow> foldl f a xs = foldl g a xs"
  by (induction xs arbitrary: a) auto

text \<open>
  C10.  A rule with an empty capability list is in neither the deny paths nor
  the allow paths, and the formula of the policy is the formula of the policy
  without that rule.
\<close>

theorem empty_capability_rule_ignored:
  assumes "distinct (map fst rules)" and "(p, []) \<in> set rules"
  shows "p \<notin> set (denyPaths rules) \<and> p \<notin> set (allowPaths rules) \<and>
         buildPolicyMatch lc inputPath inputCap (filter (\<lambda>r. fst r \<noteq> p) rules)
           = buildPolicyMatch lc inputPath inputCap rules"
proof -
  let ?rules' = "filter (\<lambda>r. fst r \<noteq> p) rules"
  have e: "rules_at rules p = []" using assms by (rule rules_at_member)
  have d: "denyPaths ?rules' = denyPaths rules"
    unfolding denyPaths_def using e by (intro filter_keys_removed) simp
  have a: "allowPaths ?rules' = allowPaths rules"
    unfolding allowPaths_def using e by (intro filter_keys_removed) simp
  have nd: "p \<notin> set (denyPaths rules)" using e by (simp add: denyPaths_def)
  have na: "p \<notin> set (allowPaths rules)" using e by (simp add: allowPaths_def)
  have s: "sortedAllowPaths lc ?rules' = sortedAllowPaths lc rules"
    by (simp add: sortedAllowPaths_def a)
  have "isAllowed lc inputPath inputCap ?rules' = isAllowed lc inputPath inputCap rules"
    unfolding isAllowed_def s
  proof (rule foldl_cong_set)
    fix acc x assume "x \<in> set (sortedAllowPaths lc rules)"
    then have "x \<noteq> p" using na by (auto simp: set_sortedAllowPaths)
    then show "Mk_Ite (Mk_Seq_In_Re inputPath (buildRegexFromPath x))
                 (buildCapabilitiesMatch inputCap (rules_at ?rules' x)) acc
             = Mk_Ite (Mk_Seq_In_Re inputPath (buildRegexFromPath x))
                 (buildCapabilitiesMatch inputCap (rules_at rules x)) acc"
      by (simp add: rules_at_filter_other)
  qed
  moreover have "isDenied inputPath ?rules' = isDenied inputPath rules"
    by (simp add: isDenied_def d)
  ultimately show ?thesis using nd na by (simp add: buildPolicyMatch_def)
qed

theorem empty_capability_rule_ignored_witness:
  "distinct (map fst [(''secret/a'', [''read'']), (''secret/b'', []), (''secret/c'', [''deny''])]) \<and>
   (''secret/b'', []) \<in> set [(''secret/a'', [''read'']), (''secret/b'', []), (''secret/c'', [''deny''])] \<and>
   buildPolicyMatch code_unit_collation (Mk_Const ''path'') (Mk_Const ''cap'')
     [(''secret/a'', [''read'']), (''secret/c'', [''deny''])]
   = buildPolicyMatch code_unit_collation (Mk_Const ''path'') (Mk_Const ''cap'')
     [(''secret/a'', [''read'']), (''secret/b'', []), (''secret/c'', [''deny''])]"
proof -
  have d: "distinct (map fst [(''secret/a'', [''read'']), (''secret/b'', []), (''secret/c'', [''deny''])])"
    by simp
  have m: "(''secret/b'', []) \<in> set [(''secret/a'', [''read'']), (''secret/b'', []), (''secret/c'', [''deny''])]"
    by simp
  show ?thesis
    using d m empty_capability_rule_ignored[OF d m, of code_unit_collation "Mk_Const ''path''"
        "Mk_Const ''cap''"]
    by simp
qed

text \<open>
  C8 as stated fails.  The deny disjunction lists its patterns in the order of
  the keys, so two insertion orders of one mapping with two deny rules give
  two different formulas.  The mapping has no allow rule, so the comparator is
  never called.
\<close>

theorem formula_depends_on_key_order_counterexample:
  "set [(''secret/a'', [''deny'']), (''secret/b'', [''deny''])]
     = set [(''secret/b'', [''deny'']), (''secret/a'', [''deny''])] \<and>
   buildPolicyMatch code_unit_collation (Mk_Const ''path'') (Mk_Const ''cap'')
     [(''secret/a'', [''deny'']), (''secret/b'', [''deny''])]
   \<noteq> buildPolicyMatch code_unit_collation (Mk_Const ''path'') (Mk_Const ''cap'')
     [(''secret/b'', [''deny'']), (''secret/a'', [''deny''])]"
proof -
  have a: "buildRegexFromPath ''secret/a'' = Some (Seq_To_Re ''secret/a'')" by code_simp
  have b: "buildRegexFromPath ''secret/b'' = Some (Seq_To_Re ''secret/b'')" by code_simp
  show ?thesis
    by (simp add: buildPolicyMatch_def isDenied_def denyPaths_def object_keys_def rules_at_def
        insert_commute a b)
qed

lemma rules_at_same:
  assumes "distinct (map fst rules1)" "distinct (map fst rules2)" "set rules1 = set rules2"
  shows "rules_at rules1 = rules_at rules2"
proof -
  have "map_of rules1 = map_of rules2" using assms by (simp add: map_of_inject_set)
  then show ?thesis by (auto simp: rules_at_def fun_eq_iff)
qed

text \<open>
  C8, amended.  Let the host's collation be a consistent comparator that
  separates the allow patterns of the mapping.  For two insertion orders of the
  mapping, the allow cascade is the same term (its order comes from the
  priority order), the deny disjunction has the same patterns, and the two
  formulas have the same truth value under every assignment.
\<close>

theorem formula_independent_of_key_order:
  assumes "consistent_comparator lc" "separates lc (set (allowPaths rules1))"
    and "distinct (map fst rules1)" "distinct (map fst rules2)" "set rules1 = set rules2"
  shows "isAllowed lc inputPath inputCap rules1 = isAllowed lc inputPath inputCap rules2 \<and>
         set (denyPaths rules1) = set (denyPaths rules2) \<and>
         holds env (buildPolicyMatch lc inputPath inputCap rules1)
           = holds env (buildPolicyMatch lc inputPath inputCap rules2)"
proof -
  have r: "rules_at rules1 = rules_at rules2" using assms(3-5) by (rule rules_at_same)
  have k: "set (object_keys rules1) = set (object_keys rules2)"
    using assms(5) by (simp add: object_keys_def)
  have "set (allowPaths rules1) = set (allowPaths rules2)"
    by (simp add: allowPaths_def r k)
  then have s: "sortedAllowPaths lc rules1 = sortedAllowPaths lc rules2"
    unfolding sortedAllowPaths_def
    using assms(1-4) by (intro array_sort_perm distinct_allowPaths)
  have a: "isAllowed lc inputPath inputCap rules1 = isAllowed lc inputPath inputCap rules2"
    by (simp add: isAllowed_def s r)
  have d: "set (denyPaths rules1) = set (denyPaths rules2)"
    by (simp add: denyPaths_def r k)
  have "holds env (isDenied inputPath rules1) = holds env (isDenied inputPath rules2)"
    by (simp add: isDenied_def list_ex_iff d)
  with a d show ?thesis by (simp add: buildPolicyMatch_def)
qed

theorem formula_independent_of_key_order_witness:
  "consistent_comparator code_unit_collation \<and>
   separates code_unit_collation
     (set (allowPaths [(''secret/*'', [''read'']), (''secret/a'', [''write'']), (''secret/b'', [''deny''])])) \<and>
   distinct (map fst [(''secret/*'', [''read'']), (''secret/a'', [''write'']), (''secret/b'', [''deny''])]) \<and>
   distinct (map fst [(''secret/b'', [''deny'']), (''secret/a'', [''write'']), (''secret/*'', [''read''])]) \<and>
   set [(''secret/*'', [''read'']), (''secret/a'', [''write'']), (''secret/b'', [''deny''])]
     = set [(''secret/b'', [''deny'']), (''secret/a'', [''write'']), (''secret/*'', [''read''])] \<and>
   isAllowed code_unit_collation (Mk_Const ''path'') (Mk_Const ''cap'')
       [(''secret/*'', [''read'']), (''secret/a'', [''write'']), (''secret/b'', [''deny''])]
     = isAllowed code_unit_collation (Mk_Const ''path'') (Mk_Const ''cap'')
       [(''secret/b'', [''deny'']), (''secret/a'', [''write'']), (''secret/*'', [''read''])]"
proof -
  have d1: "distinct (map fst [(''secret/*'', [''read'']), (''secret/a'', [''write'']), (''secret/b'', [''deny''])])"
    by simp
  have d2: "distinct (map fst [(''secret/b'', [''deny'']), (''secret/a'', [''write'']), (''secret/*'', [''read''])])"
    by simp
  have s: "set [(''secret/*'', [''read'']), (''secret/a'', [''write'']), (''secret/b'', [''deny''])]
     = set [(''secret/b'', [''deny'']), (''secret/a'', [''write'']), (''secret/*'', [''read''])]"
    by auto
  have c: "consistent_comparator code_unit_collation" by (rule code_unit_collation_consistent)
  have p: "separates code_unit_collation
     (set (allowPaths [(''secret/*'', [''read'']), (''secret/a'', [''write'']), (''secret/b'', [''deny''])]))"
    by (rule code_unit_collation_separates)
  show ?thesis
    using c p d1 d2 s
      formula_independent_of_key_order[OF c p d1 d2 s, of "Mk_Const ''path''" "Mk_Const ''cap''"]
    by blast
qed

subsection \<open>The cascade\<close>

lemma last_sorted_highest:
  assumes "sorted_wrt (higher lc) (x # xs)"
  shows "\<forall>q\<in>set (x # xs). q \<noteq> x \<longrightarrow> higher lc x q"
  using assms by auto

text \<open>
  C3.  Let the host's collation be a consistent comparator that separates the
  allow patterns of the policy, and let the patterns be non-empty.  When the
  policy has allow rules, the allow part of its formula is an if-then-else
  whose outermost test is the pattern of highest priority under
  \<open>comparePathPriority\<close>.  For a path matched by at least one allow rule, there
  is a matching allow pattern of higher priority than every other matching
  one, and the allow part holds exactly for the capabilities of that pattern
  other than \<open>deny\<close>: the matching rules of lower priority are shadowed.
\<close>

theorem highest_priority_pattern_governs:
  assumes "consistent_comparator lc" and "separates lc (set (allowPaths rules))"
    and "distinct (map fst rules)" and "[] \<notin> set (object_keys rules)"
  shows "(allowPaths rules \<noteq> [] \<longrightarrow>
            (\<exists>p rest. isAllowed lc inputPath inputCap rules =
                 Mk_Ite (Mk_Seq_In_Re inputPath (buildRegexFromPath p))
                        (buildCapabilitiesMatch inputCap (rules_at rules p)) rest \<and>
               p \<in> set (allowPaths rules) \<and>
               (\<forall>q\<in>set (allowPaths rules). q \<noteq> p \<longrightarrow> js_positive (comparePathPriority lc p q)))) \<and>
         ((\<exists>q\<in>set (allowPaths rules). pattern_matches q s) \<longrightarrow>
            (\<exists>p\<in>set (allowPaths rules). pattern_matches p s \<and>
               (\<forall>q\<in>set (allowPaths rules). q \<noteq> p \<and> pattern_matches q s
                    \<longrightarrow> js_positive (comparePathPriority lc p q)) \<and>
               (\<forall>c. holds (assignment s c) (isAllowed lc (Mk_Const ''path'') (Mk_Const ''cap'') rules)
                      = (c \<in> set (rules_at rules p) \<and> c \<noteq> ''deny''))))"
proof (intro conjI impI)
  let ?xs = "rev (sortedAllowPaths lc rules)"
  have sorted: "sorted_wrt (higher lc) ?xs" using assms(1-3) by (rule descending_sorted)
  have set: "set ?xs = set (allowPaths rules)" by (simp add: set_sortedAllowPaths)
  {
    assume "allowPaths rules \<noteq> []"
    then have "?xs \<noteq> []" using set by (metis set_empty)
    then obtain p ps where xs: "?xs = p # ps" by (cases ?xs) auto
    have s2: "set (allowPaths rules) = set (p # ps)" using set unfolding xs by simp
    have "\<forall>q\<in>set (p # ps). q \<noteq> p \<longrightarrow> higher lc p q"
      using sorted unfolding xs by (rule last_sorted_highest)
    then have hi: "\<forall>q\<in>set (allowPaths rules). q \<noteq> p \<longrightarrow> js_positive (comparePathPriority lc p q)"
      unfolding s2 positive_iff_higher .
    have "p \<in> set (allowPaths rules)" unfolding s2 by simp
    moreover have "isAllowed lc inputPath inputCap rules =
        Mk_Ite (Mk_Seq_In_Re inputPath (buildRegexFromPath p))
               (buildCapabilitiesMatch inputCap (rules_at rules p))
               (foldr (\<lambda>p acc. Mk_Ite (Mk_Seq_In_Re inputPath (buildRegexFromPath p))
                            (buildCapabilitiesMatch inputCap (rules_at rules p)) acc) ps Mk_False)"
      unfolding isAllowed_foldr xs by simp
    ultimately show "\<exists>p rest. isAllowed lc inputPath inputCap rules =
                 Mk_Ite (Mk_Seq_In_Re inputPath (buildRegexFromPath p))
                        (buildCapabilitiesMatch inputCap (rules_at rules p)) rest \<and>
               p \<in> set (allowPaths rules) \<and>
               (\<forall>q\<in>set (allowPaths rules). q \<noteq> p \<longrightarrow> js_positive (comparePathPriority lc p q))"
      using hi by blast
  }
  {
    assume "\<exists>q\<in>set (allowPaths rules). pattern_matches q s"
    then have "\<exists>q\<in>set ?xs. pattern_matches q s" using set by simp
    from find_descending[OF sorted this] obtain p where
      p: "p \<in> set ?xs" "find (\<lambda>p. pattern_matches p s) ?xs = Some p" "pattern_matches p s"
         "\<forall>q\<in>set ?xs. q \<noteq> p \<and> pattern_matches q s \<longrightarrow> higher lc p q"
      by blast
    have "\<forall>c. holds (assignment s c) (isAllowed lc (Mk_Const ''path'') (Mk_Const ''cap'') rules)
                      = (c \<in> set (rules_at rules p) \<and> c \<noteq> ''deny'')"
      unfolding isAllowed_foldr holds_cascade p(2) by simp
    then show "\<exists>p\<in>set (allowPaths rules). pattern_matches p s \<and>
               (\<forall>q\<in>set (allowPaths rules). q \<noteq> p \<and> pattern_matches q s
                    \<longrightarrow> js_positive (comparePathPriority lc p q)) \<and>
               (\<forall>c. holds (assignment s c) (isAllowed lc (Mk_Const ''path'') (Mk_Const ''cap'') rules)
                      = (c \<in> set (rules_at rules p) \<and> c \<noteq> ''deny''))"
      using p(1,3,4) set by (auto simp: positive_iff_higher)
  }
qed


theorem highest_priority_pattern_governs_witness:
  "consistent_comparator code_unit_collation \<and>
   separates code_unit_collation
     (set (allowPaths [(''secret/*'', [''read'']), (''secret/app'', [''write''])])) \<and>
   distinct (map fst [(''secret/*'', [''read'']), (''secret/app'', [''write''])]) \<and>
   [] \<notin> set (object_keys [(''secret/*'', [''read'']), (''secret/app'', [''write''])]) \<and>
   allowPaths [(''secret/*'', [''read'']), (''secret/app'', [''write''])] \<noteq> [] \<and>
   (\<exists>q\<in>set (allowPaths [(''secret/*'', [''read'']), (''secret/app'', [''write''])]).
       pattern_matches q ''secret/app'') \<and>
   (\<exists>p rest. isAllowed code_unit_collation (Mk_Const ''path'') (Mk_Const ''cap'')
                  [(''secret/*'', [''read'']), (''secret/app'', [''write''])] =
                 Mk_Ite (Mk_Seq_In_Re (Mk_Const ''path'') (buildRegexFromPath p))
                        (buildCapabilitiesMatch (Mk_Const ''cap'')
                           (rules_at [(''secret/*'', [''read'']), (''secret/app'', [''write''])] p)) rest \<and>
               p \<in> set (allowPaths [(''secret/*'', [''read'']), (''secret/app'', [''write''])]) \<and>
               (\<forall>q\<in>set (allowPaths [(''secret/*'', [''read'']), (''secret/app'', [''write''])]).
                   q \<noteq> p \<longrightarrow> js_positive (comparePathPriority code_unit_collation p q))) \<and>
   (\<exists>p\<in>set (allowPaths [(''secret/*'', [''read'']), (''secret/app'', [''write''])]).
       pattern_matches p ''secret/app'' \<and>
       (\<forall>c. holds (assignment ''secret/app'' c)
               (isAllowed code_unit_collation (Mk_Const ''path'') (Mk_Const ''cap'')
                  [(''secret/*'', [''read'']), (''secret/app'', [''write''])])
              = (c \<in> set (rules_at [(''secret/*'', [''read'']), (''secret/app'', [''write''])] p)
                 \<and> c \<noteq> ''deny'')))"
proof -
  have d: "distinct (map fst [(''secret/*'', [''read'']), (''secret/app'', [''write''])])" by simp
  have a: "allowPaths [(''secret/*'', [''read'']), (''secret/app'', [''write''])]
             = [''secret/*'', ''secret/app'']" by code_simp
  have m: "pattern_matches ''secret/*'' ''secret/app''" by code_simp
  have e: "\<exists>q\<in>set (allowPaths [(''secret/*'', [''read'']), (''secret/app'', [''write''])]).
       pattern_matches q ''secret/app''" unfolding a using m by simp
  have n: "allowPaths [(''secret/*'', [''read'']), (''secret/app'', [''write''])] \<noteq> []"
    unfolding a by simp
  have k: "[] \<notin> set (object_keys [(''secret/*'', [''read'']), (''secret/app'', [''write''])])"
    by (simp add: object_keys_def)
  have c: "consistent_comparator code_unit_collation" by (rule code_unit_collation_consistent)
  have p: "separates code_unit_collation
     (set (allowPaths [(''secret/*'', [''read'']), (''secret/app'', [''write''])]))"
    by (rule code_unit_collation_separates)
  show ?thesis
    using c p d k n e
      highest_priority_pattern_governs[OF c p d k, of "Mk_Const ''path''" "Mk_Const ''cap''"
        "''secret/app''"]
    by blast
qed

subsection \<open>Patterns without wildcards\<close>

lemma split_from_literal:
  "CHR ''+'' \<notin> set s \<Longrightarrow> s = [] \<or> last s \<noteq> CHR ''*'' \<Longrightarrow> split_from acc s = [acc @ s]"
  by (induction s arbitrary: acc) (auto split: if_splits)

lemma buildRegexFromPath_literal:
  assumes "s \<noteq> []" "CHR ''+'' \<notin> set s" "last s \<noteq> CHR ''*''"
  shows "buildRegexFromPath s = Some (Seq_To_Re s)"
proof -
  have "split_wildcards s = [s]"
    using assms split_from_literal[of s "[]"] by (simp add: split_wildcards_def)
  moreover have "s \<noteq> ''*''" "s \<noteq> ''+''" using assms by auto
  ultimately show ?thesis using assms(1)
    by (simp add: buildRegexFromPath_def part_regex_def)
qed

text \<open>
  C6 as stated fails.  On a request with an empty capability list and a
  pattern with a character outside the alphabet, the query is built and
  handed to the solver, and the result is an escalation with the solver's
  model, not an error.  Both policies have a single rule, so the collation
  plays no part.
\<close>

theorem invalid_input_reaches_solver_counterexample:
  "holds (assignment ''secret/b!'' ''read'')
     (escalationQuery code_unit_collation [(''secret/a'', [])] [(''secret/b!'', [''read''])]) \<and>
   checkPrivilegeEscalation code_unit_collation (fixed_solver Z3_L_TRUE ''secret/b!'' ''read'')
     [(''secret/a'', [])] [(''secret/b!'', [''read''])]
   = \<lparr>result = True, path = Some ''secret/b!'', capability = Some ''read'',
      z3 = \<lparr>currentPolicyAst = [], newPolicyAst = []\<rparr>\<rparr>"
proof -
  have "holds (assignment ''secret/b!'' ''read'')
     (escalationQuery code_unit_collation [(''secret/a'', [])] [(''secret/b!'', [''read''])])" by code_simp
  then show ?thesis by (simp add: checkPrivilegeEscalation_def fixed_solver_def Let_def)
qed

text \<open>
  C6, amended.  The checker validates nothing.  On every request with non-empty
  patterns, whatever their characters and whatever the capability lists, the
  result is the verdict of the solver on the query (an escalation exactly on
  \<open>sat\<close>, with the path and capability of the model), and a non-empty pattern
  without \<open>+\<close> and without a final \<open>*\<close> is compiled to the literal itself,
  whatever its characters.
\<close>

theorem verdict_decides_every_request:
  assumes "[] \<notin> set (object_keys currentRules) \<union> set (object_keys newRules)"
  shows "result (checkPrivilegeEscalation lc Z3 currentRules newRules)
           = (solver_check Z3 (escalationQuery lc currentRules newRules) = Z3_L_TRUE) \<and>
         (solver_check Z3 (escalationQuery lc currentRules newRules) = Z3_L_TRUE \<longrightarrow>
            path (checkPrivilegeEscalation lc Z3 currentRules newRules)
              = model_string Z3 (escalationQuery lc currentRules newRules) ''path'' \<and>
            capability (checkPrivilegeEscalation lc Z3 currentRules newRules)
              = model_string Z3 (escalationQuery lc currentRules newRules) ''cap'') \<and>
         (s \<noteq> [] \<and> CHR ''+'' \<notin> set s \<and> last s \<noteq> CHR ''*''
            \<longrightarrow> buildRegexFromPath s = Some (Seq_To_Re s))"
  using buildRegexFromPath_literal[of s]
  by (simp add: checkPrivilegeEscalation_def escalationQuery_def Let_def)

theorem verdict_decides_every_request_witness:
  "[] \<notin> set (object_keys [(''secret/a'', [])]) \<union> set (object_keys [(''secret/b!'', [''read''])]) \<and>
   solver_check (fixed_solver Z3_L_TRUE ''secret/b!'' ''read'')
     (escalationQuery code_unit_collation [(''secret/a'', [])] [(''secret/b!'', [''read''])]) = Z3_L_TRUE \<and>
   result (checkPrivilegeEscalation code_unit_collation (fixed_solver Z3_L_TRUE ''secret/b!'' ''read'')
     [(''secret/a'', [])] [(''secret/b!'', [''read''])]) = True \<and>
   path (checkPrivilegeEscalation code_unit_collation (fixed_solver Z3_L_TRUE ''secret/b!'' ''read'')
     [(''secret/a'', [])] [(''secret/b!'', [''read''])]) = Some ''secret/b!'' \<and>
   ''secret/b!'' \<noteq> [] \<and> CHR ''+'' \<notin> set ''secret/b!'' \<and> last ''secret/b!'' \<noteq> CHR ''*'' \<and>
   buildRegexFromPath ''secret/b!'' = Some (Seq_To_Re ''secret/b!'')"
proof -
  have k: "[] \<notin> set (object_keys [(''secret/a'', [])]) \<union> set (object_keys [(''secret/b!'', [''read''])])"
    by (simp add: object_keys_def)
  have v: "solver_check (fixed_solver Z3_L_TRUE ''secret/b!'' ''read'')
     (escalationQuery code_unit_collation [(''secret/a'', [])] [(''secret/b!'', [''read''])]) = Z3_L_TRUE"
    by (simp add: fixed_solver_def)
  have m: "model_string (fixed_solver Z3_L_TRUE ''secret/b!'' ''read'')
     (escalationQuery code_unit_collation [(''secret/a'', [])] [(''secret/b!'', [''read''])]) ''path'' = Some ''secret/b!''"
    by (simp add: fixed_solver_def)
  show ?thesis
    using k v m
      verdict_decides_every_request[OF k, of code_unit_collation
        "fixed_solver Z3_L_TRUE ''secret/b!'' ''read''" "''secret/b!''"]
    by simp
qed

subsection \<open>The derivative matcher decides the language\<close>

lemma quotient_conc:
  "left_quotient c (conc A B) =
     conc (left_quotient c A) B \<union> (if [] \<in> A then left_quotient c B else {})"
proof (intro set_eqI iffI)
  fix w assume "w \<in> left_quotient c (conc A B)"
  then obtain u v where uv: "c # w = u @ v" "u \<in> A" "v \<in> B"
    by (auto simp: left_quotient_def conc_def)
  show "w \<in> conc (left_quotient c A) B \<union> (if [] \<in> A then left_quotient c B else {})"
  proof (cases u)
    case Nil
    with uv show ?thesis by (auto simp: left_quotient_def)
  next
    case (Cons a u')
    with uv have "w = u' @ v" "c # u' \<in> A" by auto
    with uv(3) show ?thesis by (auto simp: left_quotient_def conc_def)
  qed
next
  fix w assume "w \<in> conc (left_quotient c A) B \<union> (if [] \<in> A then left_quotient c B else {})"
  then consider "w \<in> conc (left_quotient c A) B" | "[] \<in> A" "c # w \<in> B"
    by (auto simp: left_quotient_def split: if_splits)
  then show "w \<in> left_quotient c (conc A B)"
  proof cases
    case 1
    then obtain u v where "w = u @ v" "c # u \<in> A" "v \<in> B"
      by (auto simp: left_quotient_def conc_def)
    then have "c # w = (c # u) @ v" by simp
    then show ?thesis using \<open>c # u \<in> A\<close> \<open>v \<in> B\<close> unfolding left_quotient_def conc_def by blast
  next
    case 2
    then have "c # w = [] @ (c # w)" by simp
    then show ?thesis using 2 unfolding left_quotient_def conc_def by blast
  qed
qed

lemma star_cons_split:
  "x \<in> star A \<Longrightarrow> x = c # w \<Longrightarrow> w \<in> conc (left_quotient c A) (star A)"
proof (induction arbitrary: w rule: star.induct)
  case star_empty
  then show ?case by simp
next
  case (star_step u v)
  show ?case
  proof (cases u)
    case Nil
    with star_step show ?thesis by simp
  next
    case (Cons a u')
    with star_step.prems have "w = u' @ v" "a = c" by auto
    with Cons star_step.hyps show ?thesis by (auto simp: left_quotient_def conc_def)
  qed
qed

lemma quotient_star: "left_quotient c (star A) = conc (left_quotient c A) (star A)"
proof (intro set_eqI iffI)
  fix w assume "w \<in> left_quotient c (star A)"
  then show "w \<in> conc (left_quotient c A) (star A)"
    using star_cons_split[of "c # w" A c w] by (simp add: left_quotient_def)
next
  fix w assume "w \<in> conc (left_quotient c A) (star A)"
  then obtain u v where "w = u @ v" "c # u \<in> A" "v \<in> star A"
    by (auto simp: left_quotient_def conc_def)
  then show "w \<in> left_quotient c (star A)"
    using star_step[of "c # u" A v] by (simp add: left_quotient_def)
qed

lemma conc_empty_word: "conc A {[]} = A"
  by (auto simp: conc_def)

lemma nil_in_conc: "[] \<in> conc A B \<longleftrightarrow> [] \<in> A \<and> [] \<in> B"
  by (auto simp: conc_def)

lemma nullable_lang: "re_nullable r \<longleftrightarrow> [] \<in> lang r"
proof (induction r)
  case (Re_Union rs)
  then show ?case by (auto simp: list_ex_iff)
next
  case (Re_Concat rs)
  then show ?case by (induction rs) (auto simp: nil_in_conc)
next
  case (Re_Star r)
  then show ?case by (simp add: star_empty)
next
  case (Re_Plus r)
  then show ?case by (simp add: nil_in_conc star_empty)
qed auto

lemma lang_deriv: "lang (re_deriv c r) = left_quotient c (lang r)"
proof (induction c r rule: re_deriv.induct)
  case (1 c a b)
  then show ?case by (auto simp: left_quotient_def)
next
  case (2 c)
  then show ?case by (auto simp: left_quotient_def)
next
  case (3 c x xs)
  then show ?case by (auto simp: left_quotient_def)
next
  case (4 c rs)
  then show ?case by (auto simp: left_quotient_def)
next
  case (5 c)
  then show ?case by (auto simp: left_quotient_def)
next
  case (6 c r rs)
  then show ?case by (simp add: quotient_conc nullable_lang)
next
  case (7 c r)
  then show ?case by (simp add: quotient_star conc_empty_word)
next
  case (8 c r)
  then show ?case
    by (auto simp: quotient_conc quotient_star conc_empty_word)
qed

lemma re_match_lang: "re_match r w \<longleftrightarrow> w \<in> lang r"
proof (induction w arbitrary: r)
  case Nil
  then show ?case by (simp add: re_match_def nullable_lang)
next
  case (Cons c w)
  have "re_match r (c # w) = re_match (re_deriv c r) w" by (simp add: re_match_def)
  then show ?case using Cons[of "re_deriv c r"] by (simp add: lang_deriv left_quotient_def)
qed

lemma star_chars: "star {[c] | c. P c} = {w. \<forall>c\<in>set w. P c}"
proof (intro set_eqI iffI)
  fix w assume "w \<in> star {[c] | c. P c}"
  then show "w \<in> {w. \<forall>c\<in>set w. P c}" by (induction rule: star.induct) auto
next
  fix w assume "w \<in> {w. \<forall>c\<in>set w. P c}"
  then show "w \<in> star {[c] | c. P c}"
  proof (induction w)
    case Nil
    then show ?case by (simp add: star_empty)
  next
    case (Cons a w)
    then have "[a] \<in> {[c] | c. P c}" "w \<in> star {[c] | c. P c}" by auto
    then have "[a] @ w \<in> star {[c] | c. P c}" by (rule star_step)
    then show ?case by simp
  qed
qed

lemma lang_wildcardRanges: "lang (Re_Union wildcardRanges) = {[c] | c. literal_char c}"
  by (auto simp: wildcardRanges_def literal_char_def)

lemma lang_wildcardRanges_slash:
  "lang (Re_Union (wildcardRanges @ [Seq_To_Re ''/''])) = {[c] | c. literal_char c \<or> c = CHR ''/''}"
  by (auto simp: wildcardRanges_def literal_char_def)

lemma conc_chars_star:
  "conc {[c] | c. P c} {w. \<forall>c\<in>set w. P c} = {w. w \<noteq> [] \<and> (\<forall>c\<in>set w. P c)}"
proof (intro set_eqI iffI)
  fix w assume "w \<in> conc {[c] | c. P c} {w. \<forall>c\<in>set w. P c}"
  then show "w \<in> {w. w \<noteq> [] \<and> (\<forall>c\<in>set w. P c)}" by (auto simp: conc_def)
next
  fix w assume "w \<in> {w. w \<noteq> [] \<and> (\<forall>c\<in>set w. P c)}"
  then obtain a v where "w = [a] @ v" "P a" "\<forall>c\<in>set v. P c" by (cases w) auto
  then show "w \<in> conc {[c] | c. P c} {w. \<forall>c\<in>set w. P c}" unfolding conc_def by blast
qed

lemma matches_segment:
  "pattern_matches ''secret/app/+'' s \<longleftrightarrow>
     take 11 s = ''secret/app/'' \<and> drop 11 s \<noteq> [] \<and> (\<forall>c\<in>set (drop 11 s). literal_char c)"
proof -
  have b: "buildRegexFromPath ''secret/app/+'' =
     Some (Re_Concat [Seq_To_Re ''secret/app/'', Re_Plus (Re_Union wildcardRanges)])"
    by code_simp
  have "pattern_matches ''secret/app/+'' s \<longleftrightarrow>
     s \<in> conc {''secret/app/''} {w. w \<noteq> [] \<and> (\<forall>c\<in>set w. literal_char c)}"
    unfolding pattern_matches_def b
    by (simp add: re_match_lang lang_wildcardRanges star_chars conc_chars_star conc_empty_word
        del: lang.simps(3))
  also have "\<dots> \<longleftrightarrow> take 11 s = ''secret/app/'' \<and> drop 11 s \<noteq> [] \<and> (\<forall>c\<in>set (drop 11 s). literal_char c)"
  proof
    assume "s \<in> conc {''secret/app/''} {w. w \<noteq> [] \<and> (\<forall>c\<in>set w. literal_char c)}"
    then obtain w where "s = ''secret/app/'' @ w" "w \<noteq> []" "\<forall>c\<in>set w. literal_char c"
      by (auto simp: conc_def)
    then show "take 11 s = ''secret/app/'' \<and> drop 11 s \<noteq> [] \<and> (\<forall>c\<in>set (drop 11 s). literal_char c)"
      by simp
  next
    assume a: "take 11 s = ''secret/app/'' \<and> drop 11 s \<noteq> [] \<and> (\<forall>c\<in>set (drop 11 s). literal_char c)"
    have "s = take 11 s @ drop 11 s" by simp
    then have "s = ''secret/app/'' @ drop 11 s" using a by metis
    then show "s \<in> conc {''secret/app/''} {w. w \<noteq> [] \<and> (\<forall>c\<in>set w. literal_char c)}"
      using a unfolding conc_def by blast
  qed
  finally show ?thesis .
qed

subsection \<open>Widening a segment wildcard to a glob\<close>

lemma matches_glob:
  "pattern_matches ''secret/app/*'' s \<longleftrightarrow>
     take 11 s = ''secret/app/'' \<and> (\<forall>c\<in>set (drop 11 s). literal_char c \<or> c = CHR ''/'')"
proof -
  have b: "buildRegexFromPath ''secret/app/*'' =
     Some (Re_Concat [Seq_To_Re ''secret/app/'', Re_Star (Re_Union (wildcardRanges @ [Seq_To_Re ''/'']))])"
    by code_simp
  have "pattern_matches ''secret/app/*'' s \<longleftrightarrow>
     s \<in> conc {''secret/app/''} {w. \<forall>c\<in>set w. literal_char c \<or> c = CHR ''/''}"
    unfolding pattern_matches_def b
    by (simp add: re_match_lang lang_wildcardRanges_slash star_chars conc_empty_word
        del: lang.simps(3))
  also have "\<dots> \<longleftrightarrow> take 11 s = ''secret/app/'' \<and> (\<forall>c\<in>set (drop 11 s). literal_char c \<or> c = CHR ''/'')"
  proof
    assume "s \<in> conc {''secret/app/''} {w. \<forall>c\<in>set w. literal_char c \<or> c = CHR ''/''}"
    then obtain w where "s = ''secret/app/'' @ w" "\<forall>c\<in>set w. literal_char c \<or> c = CHR ''/''"
      by (auto simp: conc_def)
    then show "take 11 s = ''secret/app/'' \<and> (\<forall>c\<in>set (drop 11 s). literal_char c \<or> c = CHR ''/'')"
      by simp
  next
    assume a: "take 11 s = ''secret/app/'' \<and> (\<forall>c\<in>set (drop 11 s). literal_char c \<or> c = CHR ''/'')"
    have "s = take 11 s @ drop 11 s" by simp
    then have "s = ''secret/app/'' @ drop 11 s" using a by metis
    then show "s \<in> conc {''secret/app/''} {w. \<forall>c\<in>set w. literal_char c \<or> c = CHR ''/''}"
      using a unfolding conc_def by blast
  qed
  finally show ?thesis .
qed

lemma slash_not_literal: "\<not> literal_char (CHR ''/'')"
  by (simp add: literal_char_def in_range_def)

lemma holds_policy:
  "holds (assignment s c) (buildPolicyMatch lc (Mk_Const ''path'') (Mk_Const ''cap'') rules) \<longleftrightarrow>
     (case find (\<lambda>p. pattern_matches p s) (rev (sortedAllowPaths lc rules)) of
        None \<Rightarrow> False
      | Some p \<Rightarrow> c \<in> set (rules_at rules p) \<and> c \<noteq> ''deny'') \<and>
     \<not> (\<exists>p\<in>set (denyPaths rules). pattern_matches p s)"
  by (simp add: buildPolicyMatch_def holds_isDenied isAllowed_foldr holds_cascade)

lemma widening_query:
  "holds (assignment s c)
     (escalationQuery lc [(''secret/app/+'', [''read''])] [(''secret/app/*'', [''read''])]) \<longleftrightarrow>
   c = ''read'' \<and> take 11 s = ''secret/app/'' \<and>
   (\<forall>x\<in>set (drop 11 s). literal_char x \<or> x = CHR ''/'') \<and>
   (drop 11 s = [] \<or> CHR ''/'' \<in> set (drop 11 s))"
proof -
  have sc: "sortedAllowPaths lc [(''secret/app/+'', [''read''])] = [''secret/app/+'']"
    by (simp add: sortedAllowPaths_def allowPaths_def object_keys_def rules_at_def array_sort_def)
  have sn: "sortedAllowPaths lc [(''secret/app/*'', [''read''])] = [''secret/app/*'']"
    by (simp add: sortedAllowPaths_def allowPaths_def object_keys_def rules_at_def array_sort_def)
  have dc: "denyPaths [(''secret/app/+'', [''read''])] = []" by code_simp
  have dn: "denyPaths [(''secret/app/*'', [''read''])] = []" by code_simp
  have rc: "rules_at [(''secret/app/+'', [''read''])] ''secret/app/+'' = [''read'']" by code_simp
  have rn: "rules_at [(''secret/app/*'', [''read''])] ''secret/app/*'' = [''read'']" by code_simp
  have cur: "holds (assignment s c)
       (buildPolicyMatch lc (Mk_Const ''path'') (Mk_Const ''cap'') [(''secret/app/+'', [''read''])])
     \<longleftrightarrow> pattern_matches ''secret/app/+'' s \<and> c = ''read''"
    unfolding holds_policy sc dc by (auto simp: rc)
  have new: "holds (assignment s c)
       (buildPolicyMatch lc (Mk_Const ''path'') (Mk_Const ''cap'') [(''secret/app/*'', [''read''])])
     \<longleftrightarrow> pattern_matches ''secret/app/*'' s \<and> c = ''read''"
    unfolding holds_policy sn dn by (auto simp: rn)
  have "holds (assignment s c)
     (escalationQuery lc [(''secret/app/+'', [''read''])] [(''secret/app/*'', [''read''])]) \<longleftrightarrow>
     c = ''read'' \<and> pattern_matches ''secret/app/*'' s \<and> \<not> pattern_matches ''secret/app/+'' s"
    unfolding escalationQuery_def using cur new by auto
  also have "\<dots> \<longleftrightarrow> c = ''read'' \<and> take 11 s = ''secret/app/'' \<and>
   (\<forall>x\<in>set (drop 11 s). literal_char x \<or> x = CHR ''/'') \<and>
   (drop 11 s = [] \<or> CHR ''/'' \<in> set (drop 11 s))"
    unfolding matches_glob matches_segment using slash_not_literal by auto
  finally show ?thesis .
qed

text \<open>
  C5 as stated fails.  The path \<open>secret/app/\<close> with the capability \<open>read\<close> satisfies
  the query of scenario 6: \<open>*\<close> matches the empty rest and \<open>+\<close> needs one
  character.  A solver that answers with this model is correct, and the check
  returns the witness path \<open>secret/app/\<close>, with no \<open>/\<close> after \<open>secret/app/\<close>.
  Both policies have a single rule, so the collation plays no part.
\<close>

theorem segment_widening_witness_path_counterexample:
  "correct_answer (fixed_solver Z3_L_TRUE ''secret/app/'' ''read'')
     (escalationQuery code_unit_collation [(''secret/app/+'', [''read''])] [(''secret/app/*'', [''read''])]) \<and>
   holds (assignment ''secret/app/'' ''read'')
     (escalationQuery code_unit_collation [(''secret/app/+'', [''read''])] [(''secret/app/*'', [''read''])]) \<and>
   checkPrivilegeEscalation code_unit_collation (fixed_solver Z3_L_TRUE ''secret/app/'' ''read'')
     [(''secret/app/+'', [''read''])] [(''secret/app/*'', [''read''])]
   = \<lparr>result = True, path = Some ''secret/app/'', capability = Some ''read'',
      z3 = \<lparr>currentPolicyAst = [], newPolicyAst = []\<rparr>\<rparr> \<and>
   CHR ''/'' \<notin> set (drop 11 ''secret/app/'')"
proof -
  have h: "holds (assignment ''secret/app/'' ''read'')
     (escalationQuery code_unit_collation [(''secret/app/+'', [''read''])] [(''secret/app/*'', [''read''])])"
    by code_simp
  then show ?thesis
    by (simp add: correct_answer_def checkPrivilegeEscalation_def fixed_solver_def Let_def)
qed

text \<open>
  C5, amended.  For the current policy \<open>secret/app/+\<close> and the new policy
  \<open>secret/app/*\<close>, both with \<open>read\<close>, the query holds exactly for the capability
  \<open>read\<close> and the paths \<open>secret/app/\<close> followed by a rest over the alphabet that is
  empty or contains a \<open>/\<close> (the class of \<open>+\<close> excludes \<open>/\<close>, the class of \<open>*\<close>
  includes it).  With a solver that answers the query correctly, the check
  reports an escalation for \<open>read\<close>, and the witness path is \<open>secret/app/\<close>
  followed by a rest that is empty or contains a \<open>/\<close>.
\<close>

theorem segment_widening_escalates:
  "(holds (assignment s c)
      (escalationQuery lc [(''secret/app/+'', [''read''])] [(''secret/app/*'', [''read''])]) \<longleftrightarrow>
    c = ''read'' \<and> take 11 s = ''secret/app/'' \<and>
    (\<forall>x\<in>set (drop 11 s). literal_char x \<or> x = CHR ''/'') \<and>
    (drop 11 s = [] \<or> CHR ''/'' \<in> set (drop 11 s))) \<and>
   (correct_answer Z3
      (escalationQuery lc [(''secret/app/+'', [''read''])] [(''secret/app/*'', [''read''])]) \<longrightarrow>
    result (checkPrivilegeEscalation lc Z3
      [(''secret/app/+'', [''read''])] [(''secret/app/*'', [''read''])]) = True \<and>
    capability (checkPrivilegeEscalation lc Z3
      [(''secret/app/+'', [''read''])] [(''secret/app/*'', [''read''])]) = Some ''read'' \<and>
    (\<exists>w. path (checkPrivilegeEscalation lc Z3
             [(''secret/app/+'', [''read''])] [(''secret/app/*'', [''read''])])
           = Some (''secret/app/'' @ w) \<and>
         (w = [] \<or> CHR ''/'' \<in> set w)))"
proof (intro conjI impI)
  let ?q = "escalationQuery lc [(''secret/app/+'', [''read''])] [(''secret/app/*'', [''read''])]"
  let ?r = "checkPrivilegeEscalation lc Z3 [(''secret/app/+'', [''read''])] [(''secret/app/*'', [''read''])]"
  show "holds (assignment s c) ?q \<longleftrightarrow>
    c = ''read'' \<and> take 11 s = ''secret/app/'' \<and>
    (\<forall>x\<in>set (drop 11 s). literal_char x \<or> x = CHR ''/'') \<and>
    (drop 11 s = [] \<or> CHR ''/'' \<in> set (drop 11 s))"
    by (rule widening_query)
  assume ca: "correct_answer Z3 ?q"
  have "holds (assignment ''secret/app/x/y'' ''read'') ?q" by code_simp
  then have "satisfiable ?q" unfolding satisfiable_def by blast
  with ca have v: "solver_check Z3 ?q = Z3_L_TRUE" by (simp add: correct_answer_def)
  with ca obtain p k where m: "model_string Z3 ?q ''path'' = Some p"
    "model_string Z3 ?q ''cap'' = Some k" "holds (assignment p k) ?q"
    unfolding correct_answer_def by blast
  from m(3) have k: "k = ''read''" and t: "take 11 p = ''secret/app/''"
    and d: "drop 11 p = [] \<or> CHR ''/'' \<in> set (drop 11 p)"
    unfolding widening_query by auto
  have res: "result ?r = True" "path ?r = Some p" "capability ?r = Some k"
    using v m(1,2) by (simp_all add: checkPrivilegeEscalation_def escalationQuery_def Let_def)
  show "result ?r = True" by (rule res)
  show "capability ?r = Some ''read''" using res k by simp
  have "p = take 11 p @ drop 11 p" by simp
  then have "p = ''secret/app/'' @ drop 11 p" using t by metis
  then show "\<exists>w. path ?r = Some (''secret/app/'' @ w) \<and> (w = [] \<or> CHR ''/'' \<in> set w)"
    using res(2) d by metis
qed

theorem segment_widening_escalates_witness:
  "correct_answer (fixed_solver Z3_L_TRUE ''secret/app/x/y'' ''read'')
     (escalationQuery code_unit_collation [(''secret/app/+'', [''read''])] [(''secret/app/*'', [''read''])]) \<and>
   result (checkPrivilegeEscalation code_unit_collation (fixed_solver Z3_L_TRUE ''secret/app/x/y'' ''read'')
      [(''secret/app/+'', [''read''])] [(''secret/app/*'', [''read''])]) = True \<and>
   capability (checkPrivilegeEscalation code_unit_collation (fixed_solver Z3_L_TRUE ''secret/app/x/y'' ''read'')
      [(''secret/app/+'', [''read''])] [(''secret/app/*'', [''read''])]) = Some ''read'' \<and>
   holds (assignment ''secret/app/x/y'' ''read'')
      (escalationQuery code_unit_collation [(''secret/app/+'', [''read''])] [(''secret/app/*'', [''read''])])"
proof -
  have h: "holds (assignment ''secret/app/x/y'' ''read'')
     (escalationQuery code_unit_collation [(''secret/app/+'', [''read''])] [(''secret/app/*'', [''read''])])"
    by code_simp
  then have c: "correct_answer (fixed_solver Z3_L_TRUE ''secret/app/x/y'' ''read'')
     (escalationQuery code_unit_collation [(''secret/app/+'', [''read''])] [(''secret/app/*'', [''read''])])"
    by (simp add: correct_answer_def fixed_solver_def)
  show ?thesis
    using h c segment_widening_escalates[of "''secret/app/x/y''" "''read''" code_unit_collation
        "fixed_solver Z3_L_TRUE ''secret/app/x/y'' ''read''"]
    by blast
qed

end
